theory Spec2Isabelle
  imports Main
begin

section \<open>The observable cell of \<^verbatim>\<open>src/observable.ts\<close> and its event loop\<close>

text \<open>
  \<^verbatim>\<open>BasicObservable<T>\<close> is a mutable object whose methods run on the JavaScript event
  loop. The embedding is a world record holding every piece of state the class touches:
  \<^item> the cells themselves (a store from references to the fields of the class);
  \<^item> the subscriber arrays, in a store of their own: \<^verbatim>\<open>subscribe\<close> pushes in place,
    \<^verbatim>\<open>seal\<close> and the unsubscribe closure assign a new array, and a \<^verbatim>\<open>for ... of\<close>
    loop suspended at an \<^verbatim>\<open>await\<close> keeps iterating the array object it started on;
  \<^item> the pending timers of \<^verbatim>\<open>setTimeout\<close> and a clock in milliseconds;
  \<^item> the microtask queue, which holds the continuations of \<^verbatim>\<open>_notify\<close> suspended at
    \<^verbatim>\<open>await subscriber(newValue, oldValue)\<close>;
  \<^item> the closures created by \<^verbatim>\<open>bind\<close>;
  \<^item> a log of the calls received by the subscribers passed in from outside.

  Values of type \<^verbatim>\<open>T\<close> are a type variable; \<^verbatim>\<open>===\<close> is HOL equality (JavaScript
  primitives other than NaN, or object references). A subscriber is a function reference,
  compared by identity in \<^verbatim>\<open>filter((s) => s !== subscriber)\<close>: \<open>Listener l\<close> is the
  function \<open>l\<close> handed in by a caller, \<open>Recompute k\<close> is the \<open>k\<close>-th closure
  \<^verbatim>\<open>async () => { this.set(compute(...)) }\<close> created by \<^verbatim>\<open>bind\<close>. A listener is opaque:
  calling it appends to the log and returns at once (it returns no pending promise and
  does not call back into a cell), so every \<^verbatim>\<open>await\<close> takes exactly one microtask.
\<close>

datatype ObservableState = sealed | unsealed | muted

datatype error = SealedMutationError

text \<open>How a call ends: normally, by a synchronous throw, or (for the \<^verbatim>\<open>async\<close> method
  \<^verbatim>\<open>set\<close>) by returning a rejected promise.\<close>

datatype outcome = Ok | Threw error | Rejected error

record ObservableOptions =
  debounce :: "nat option"
  throttle :: "nat option"

text \<open>\<^verbatim>\<open>if (this._options.throttle)\<close>: \<^verbatim>\<open>undefined\<close> and \<^verbatim>\<open>0\<close> are falsy.\<close>

definition truthy :: "nat option \<Rightarrow> bool" where
  "truthy x = (case x of None \<Rightarrow> False | Some n \<Rightarrow> n \<noteq> 0)"

datatype Subscriber = Listener nat | Recompute nat

record 'v Observable =
  u_state :: ObservableState
  u_subscribers :: nat
  u_value :: 'v
  u_options :: ObservableOptions
  u_history :: "'v list"
  u_debounceTimeout :: "nat option"
  u_throttleTimeout :: "nat option"

text \<open>The two callbacks the class hands to \<^verbatim>\<open>setTimeout\<close> (lines 49-52 and 59-64), with
  the variables they close over.\<close>

datatype 'v TimerCallback = ThrottleExpired nat | DebounceExpired nat 'v 'v

record 'v Timer =
  handle :: nat
  due :: nat
  callback :: "'v TimerCallback"

text \<open>\<open>ResumeNotify c a i new old\<close>: the loop over the array \<open>a\<close> of cell \<open>c\<close>, suspended
  before its element \<open>i\<close>.\<close>

datatype 'v Microtask = ResumeNotify nat nat nat 'v 'v

record 'v Closure =
  target :: nat
  dependencies :: "nat list"
  compute :: "'v list \<Rightarrow> 'v"

record 'v Call =
  callee :: nat
  arg_newValue :: 'v
  arg_oldValue :: "'v option"

record 'v World =
  cells :: "nat \<Rightarrow> 'v Observable"
  arrays :: "nat \<Rightarrow> Subscriber list"
  closures :: "nat \<Rightarrow> 'v Closure"
  next_cell :: nat
  next_array :: nat
  next_closure :: nat
  next_handle :: nat
  timers :: "'v Timer list"
  microtasks :: "'v Microtask list"
  now :: nat
  calls :: "'v Call list"

definition upd_cell :: "nat \<Rightarrow> ('v Observable \<Rightarrow> 'v Observable) \<Rightarrow> 'v World \<Rightarrow> 'v World" where
  "upd_cell c f w = w\<lparr>cells := (cells w)(c := f (cells w c))\<rparr>"

text \<open>The current content of \<^verbatim>\<open>this._subscribers\<close>.\<close>

definition subs :: "'v World \<Rightarrow> nat \<Rightarrow> Subscriber list" where
  "subs w c = arrays w (u_subscribers (cells w c))"

definition setTimeout :: "'v TimerCallback \<Rightarrow> nat \<Rightarrow> 'v World \<Rightarrow> nat \<times> 'v World" where
  "setTimeout cb delay w =
     (next_handle w,
      w\<lparr>timers := timers w @ [\<lparr>handle = next_handle w, due = now w + delay, callback = cb\<rparr>],
        next_handle := Suc (next_handle w)\<rparr>)"

definition clearTimeout :: "nat \<Rightarrow> 'v World \<Rightarrow> 'v World" where
  "clearTimeout h w = w\<lparr>timers := filter (\<lambda>t. handle t \<noteq> h) (timers w)\<rparr>"

subsection \<open>The notification pipeline\<close>

text \<open>Lines 45-53: \<open>None\<close> when the notification is dropped.\<close>

definition throttle_gate :: "nat \<Rightarrow> 'v World \<Rightarrow> 'v World option" where
  "throttle_gate c w =
     (if truthy (throttle (u_options (cells w c))) then
        (if u_throttleTimeout (cells w c) \<noteq> None then None
         else
           (let (h, w1) = setTimeout (ThrottleExpired c) (the (throttle (u_options (cells w c)))) w
            in Some (upd_cell c (\<lambda>ob. ob\<lparr>u_throttleTimeout := Some h\<rparr>) w1)))
      else Some w)"

text \<open>Lines 56-64: the pending debounce timer is replaced by a new one.\<close>

definition debounce_restart :: "nat \<Rightarrow> 'v \<Rightarrow> 'v \<Rightarrow> 'v World \<Rightarrow> 'v World" where
  "debounce_restart c new old w =
     (let w1 = (case u_debounceTimeout (cells w c) of None \<Rightarrow> w | Some h \<Rightarrow> clearTimeout h w);
          (h, w2) = setTimeout (DebounceExpired c new old) (the (debounce (u_options (cells w1 c)))) w1
      in upd_cell c (\<lambda>ob. ob\<lparr>u_debounceTimeout := Some h\<rparr>) w2)"

text \<open>
  Lines 68-71, and the body of the debounce callback, lines 60-63:
  \<^verbatim>\<open>for (const subscriber of arr) { await subscriber(newValue, oldValue) }
  this._history.push(newValue)\<close> from element \<open>i\<close> of the array \<open>a\<close> on. It calls one
  subscriber and suspends at the \<^verbatim>\<open>await\<close> (its continuation joins the microtask queue
  once the subscriber has returned), or it finishes with the push. \<open>call\<close> is how a
  subscriber is called; \<open>None\<close> is a call that does not return.
\<close>

definition notify_loop_by ::
  "('v World \<Rightarrow> Subscriber \<Rightarrow> 'v \<Rightarrow> 'v option \<Rightarrow> 'v World option) \<Rightarrow>
   'v World \<Rightarrow> nat \<Rightarrow> nat \<Rightarrow> nat \<Rightarrow> 'v \<Rightarrow> 'v \<Rightarrow> 'v World option" where
  "notify_loop_by call w c a i newValue oldValue =
     (if i < length (arrays w a) then
        (case call w (arrays w a ! i) newValue (Some oldValue) of
           None \<Rightarrow> None
         | Some w1 \<Rightarrow>
             Some (w1\<lparr>microtasks := microtasks w1 @ [ResumeNotify c a (Suc i) newValue oldValue]\<rparr>))
      else Some (upd_cell c (\<lambda>ob. ob\<lparr>u_history := u_history ob @ [newValue]\<rparr>) w))"

text \<open>\<^verbatim>\<open>_notify\<close>, lines 41-72, up to its first \<^verbatim>\<open>await\<close>.\<close>

definition notify_by ::
  "('v World \<Rightarrow> Subscriber \<Rightarrow> 'v \<Rightarrow> 'v option \<Rightarrow> 'v World option) \<Rightarrow>
   'v World \<Rightarrow> nat \<Rightarrow> 'v \<Rightarrow> 'v \<Rightarrow> 'v World option" where
  "notify_by call w c newValue oldValue =
     (if u_state (cells w c) = muted then Some w
      else if newValue = oldValue then Some w
      else
        (case throttle_gate c w of
           None \<Rightarrow> Some w
         | Some w1 \<Rightarrow>
            (if truthy (debounce (u_options (cells w1 c)))
             then Some (debounce_restart c newValue oldValue w1)
             else notify_loop_by call w1 c (u_subscribers (cells w1 c)) 0 newValue oldValue)))"

text \<open>\<^verbatim>\<open>set\<close>, lines 98-103 (\<open>set_value\<close> here: \<open>set\<close> is the set of a list in HOL). The
  method is \<^verbatim>\<open>async\<close>: the error of
  \<^verbatim>\<open>_checkForSealedMutationError\<close> rejects the promise it returns.\<close>

definition set_value_by ::
  "('v World \<Rightarrow> Subscriber \<Rightarrow> 'v \<Rightarrow> 'v option \<Rightarrow> 'v World option) \<Rightarrow>
   'v World \<Rightarrow> nat \<Rightarrow> 'v \<Rightarrow> (outcome \<times> 'v World) option" where
  "set_value_by call w c newValue =
     (if u_state (cells w c) = sealed then Some (Rejected SealedMutationError, w)
      else map_option (Pair Ok)
             (notify_by call (upd_cell c (\<lambda>ob. ob\<lparr>u_value := newValue\<rparr>) w) c newValue
                (u_value (cells w c))))"

text \<open>
  Calling a subscriber. A listener is logged. A closure of \<^verbatim>\<open>bind\<close> (lines 136-144)
  reads every dependency, computes, and calls \<^verbatim>\<open>set\<close> on its target without looking at
  the promise returned. The first argument bounds the depth of the calls nested through
  such closures (a cycle of bindings recurses without end); \<open>None\<close> is a chain deeper
  than that.
\<close>

fun invoke :: "nat \<Rightarrow> 'v World \<Rightarrow> Subscriber \<Rightarrow> 'v \<Rightarrow> 'v option \<Rightarrow> 'v World option" where
  "invoke n w (Listener l) new old =
     Some (w\<lparr>calls := calls w @ [\<lparr>callee = l, arg_newValue = new, arg_oldValue = old\<rparr>]\<rparr>)"
| "invoke 0 w (Recompute k) new old = None"
| "invoke (Suc n) w (Recompute k) new old =
     map_option snd
       (set_value_by (invoke n) w (target (closures w k))
          (compute (closures w k) (map (\<lambda>d. u_value (cells w d)) (dependencies (closures w k)))))"

definition notify_loop :: "nat \<Rightarrow> 'v World \<Rightarrow> nat \<Rightarrow> nat \<Rightarrow> nat \<Rightarrow> 'v \<Rightarrow> 'v \<Rightarrow> 'v World option" where
  "notify_loop n = notify_loop_by (invoke n)"

definition notify :: "nat \<Rightarrow> 'v World \<Rightarrow> nat \<Rightarrow> 'v \<Rightarrow> 'v \<Rightarrow> 'v World option" where
  "notify n = notify_by (invoke n)"

definition set_value :: "nat \<Rightarrow> 'v World \<Rightarrow> nat \<Rightarrow> 'v \<Rightarrow> (outcome \<times> 'v World) option" where
  "set_value n = set_value_by (invoke n)"

subsection \<open>The other methods\<close>

text \<open>The constructor, lines 74-78, with the field initialisers of lines 11-18.\<close>

definition create :: "'v \<Rightarrow> ObservableOptions option \<Rightarrow> 'v World \<Rightarrow> nat \<times> 'v World" where
  "create v options w =
     (next_cell w,
      w\<lparr>cells := (cells w)(next_cell w :=
           \<lparr>u_state = unsealed, u_subscribers = next_array w, u_value = v,
            u_options = (case options of None \<Rightarrow> \<lparr>debounce = None, throttle = None\<rparr> | Some opts \<Rightarrow> opts),
            u_history = [v], u_debounceTimeout = None, u_throttleTimeout = None\<rparr>),
        arrays := (arrays w)(next_array w := []),
        next_cell := Suc (next_cell w),
        next_array := Suc (next_array w)\<rparr>)"

text \<open>\<^verbatim>\<open>this._history[this._history.length - 2]\<close>: \<^verbatim>\<open>undefined\<close> when out of range.\<close>

definition second_to_last :: "'v list \<Rightarrow> 'v option" where
  "second_to_last h = (if 2 \<le> length h then Some (h ! (length h - 2)) else None)"

text \<open>\<^verbatim>\<open>subscribe\<close>, lines 85-92. The closure returned is the pair of what it closes
  over; \<open>unsubscribe\<close> is its body.\<close>

definition subscribe ::
  "nat \<Rightarrow> 'v World \<Rightarrow> nat \<Rightarrow> Subscriber \<Rightarrow> ((nat \<times> Subscriber) \<times> 'v World) option" where
  "subscribe n w c subscriber =
     (let a = u_subscribers (cells w c);
          w1 = w\<lparr>arrays := (arrays w)(a := arrays w a @ [subscriber])\<rparr>
      in map_option (Pair (c, subscriber))
           (invoke n w1 subscriber (u_value (cells w1 c)) (second_to_last (u_history (cells w1 c)))))"

definition unsubscribe :: "nat \<times> Subscriber \<Rightarrow> 'v World \<Rightarrow> 'v World" where
  "unsubscribe u w =
     (let c = fst u; a = next_array w
      in upd_cell c (\<lambda>ob. ob\<lparr>u_subscribers := a\<rparr>)
           (w\<lparr>arrays := (arrays w)(a := filter (\<lambda>s. s \<noteq> snd u) (subs w c)),
              next_array := Suc a\<rparr>))"

definition get :: "'v World \<Rightarrow> nat \<Rightarrow> 'v" where
  "get w c = u_value (cells w c)"

text \<open>\<^verbatim>\<open>update\<close>, lines 119-121, drops the promise of \<^verbatim>\<open>set\<close>.\<close>

definition update :: "nat \<Rightarrow> 'v World \<Rightarrow> nat \<Rightarrow> ('v \<Rightarrow> 'v) \<Rightarrow> (outcome \<times> 'v World) option" where
  "update n w c updater = map_option (\<lambda>r. (Ok, snd r)) (set_value n w c (updater (get w c)))"

definition seal :: "'v World \<Rightarrow> nat \<Rightarrow> outcome \<times> 'v World" where
  "seal w c =
     (let a = next_array w
      in (Ok, upd_cell c (\<lambda>ob. ob\<lparr>u_subscribers := a, u_state := sealed\<rparr>)
                (w\<lparr>arrays := (arrays w)(a := []), next_array := Suc a\<rparr>)))"

definition mute :: "'v World \<Rightarrow> nat \<Rightarrow> outcome \<times> 'v World" where
  "mute w c =
     (if u_state (cells w c) = sealed then (Threw SealedMutationError, w)
      else (Ok, upd_cell c (\<lambda>ob. ob\<lparr>u_state := muted\<rparr>) w))"

definition unmute :: "'v World \<Rightarrow> nat \<Rightarrow> outcome \<times> 'v World" where
  "unmute w c =
     (if u_state (cells w c) = sealed then (Threw SealedMutationError, w)
      else (Ok, upd_cell c (\<lambda>ob. ob\<lparr>u_state := unsealed\<rparr>) w))"

text \<open>\<^verbatim>\<open>bind\<close>, lines 129-159: the loop of lines 134-146 over the dependencies still to
  subscribe to, each with a closure of its own, then the \<^verbatim>\<open>set\<close> of lines 147-153. The
  teardown returned is the list of the unsubscribe closures; \<open>unbind\<close> is its body.\<close>

fun bind_subscribe ::
  "nat \<Rightarrow> 'v World \<Rightarrow> nat \<Rightarrow> nat list \<Rightarrow> ('v list \<Rightarrow> 'v) \<Rightarrow> nat list \<Rightarrow>
   ((nat \<times> Subscriber) list \<times> 'v World) option" where
  "bind_subscribe n w t deps computeFn [] = Some ([], w)"
| "bind_subscribe n w t deps computeFn (d # ds) =
     (let k = next_closure w;
          w1 = w\<lparr>closures := (closures w)(k := \<lparr>target = t, dependencies = deps, compute = computeFn\<rparr>),
                 next_closure := Suc k\<rparr>
      in case subscribe n w1 d (Recompute k) of
           None \<Rightarrow> None
         | Some (u, w2) \<Rightarrow>
            (case bind_subscribe n w2 t deps computeFn ds of
               None \<Rightarrow> None
             | Some (us, w3) \<Rightarrow> Some (u # us, w3)))"

definition bind ::
  "nat \<Rightarrow> 'v World \<Rightarrow> nat \<Rightarrow> nat list \<Rightarrow> ('v list \<Rightarrow> 'v) \<Rightarrow>
   ((nat \<times> Subscriber) list \<times> 'v World) option" where
  "bind n w t deps computeFn =
     (case bind_subscribe n w t deps computeFn deps of
        None \<Rightarrow> None
      | Some (unsubscribers, w1) \<Rightarrow>
          map_option (\<lambda>r. (unsubscribers, snd r))
            (set_value n w1 t (computeFn (map (\<lambda>d. u_value (cells w1 d)) deps))))"


subsection \<open>The event loop\<close>

text \<open>The first microtask of the queue runs; \<open>None\<close> when there is none.\<close>

definition run_microtask :: "nat \<Rightarrow> 'v World \<Rightarrow> 'v World option" where
  "run_microtask n w =
     (case microtasks w of
        [] \<Rightarrow> None
      | ResumeNotify c a i new old # rest \<Rightarrow> notify_loop n (w\<lparr>microtasks := rest\<rparr>) c a i new old)"

text \<open>The microtasks run until the queue is empty, at most \<open>k\<close> of them.\<close>

fun drain :: "nat \<Rightarrow> nat \<Rightarrow> 'v World \<Rightarrow> 'v World option" where
  "drain 0 n w = (if microtasks w = [] then Some w else None)"
| "drain (Suc k) n w =
     (if microtasks w = [] then Some w
      else (case run_microtask n w of None \<Rightarrow> None | Some w1 \<Rightarrow> drain k n w1))"

text \<open>
  The timer \<open>h\<close> fires: it is pending, its delay has passed and no microtask is left.
  The throttle callback is lines 50-51, the debounce callback lines 60-63 (it reads
  \<^verbatim>\<open>this._subscribers\<close> when it runs).
\<close>

definition fire_timer :: "nat \<Rightarrow> 'v World \<Rightarrow> nat \<Rightarrow> 'v World option" where
  "fire_timer n w h =
     (case find (\<lambda>t. handle t = h) (timers w) of
        None \<Rightarrow> None
      | Some t \<Rightarrow>
          if now w < due t \<or> microtasks w \<noteq> [] then None
          else
            (let w1 = clearTimeout h w
             in case callback t of
                  ThrottleExpired c \<Rightarrow>
                    Some (upd_cell c (\<lambda>ob. ob\<lparr>u_throttleTimeout := None\<rparr>)
                            (case u_throttleTimeout (cells w1 c) of
                               None \<Rightarrow> w1
                             | Some h' \<Rightarrow> clearTimeout h' w1))
                | DebounceExpired c new old \<Rightarrow>
                    notify_loop n w1 c (u_subscribers (cells w1 c)) 0 new old))"

definition elapse :: "nat \<Rightarrow> 'v World \<Rightarrow> 'v World" where
  "elapse ms w = w\<lparr>now := now w + ms\<rparr>"

text \<open>Everything that can happen to a world: a call of a method from outside, a
  microtask, a timer, the passing of time. A call that fails leaves the world as it
  is.\<close>

datatype 'v event =
    Call_create 'v "ObservableOptions option"
  | Call_set nat 'v
  | Call_update nat "'v \<Rightarrow> 'v"
  | Call_subscribe nat Subscriber
  | Call_unsubscribe "nat \<times> Subscriber"
  | Call_seal nat
  | Call_mute nat
  | Call_unmute nat
  | Call_bind nat "nat list" "'v list \<Rightarrow> 'v"
  | Run_microtask
  | Run_microtasks nat
  | Fire_timer nat
  | Elapse nat

fun step :: "nat \<Rightarrow> 'v World \<Rightarrow> 'v event \<Rightarrow> 'v World option" where
  "step n w (Call_create v options) = Some (snd (create v options w))"
| "step n w (Call_set c v) = map_option snd (set_value n w c v)"
| "step n w (Call_update c f) = map_option snd (update n w c f)"
| "step n w (Call_subscribe c s) = map_option snd (subscribe n w c s)"
| "step n w (Call_unsubscribe u) = Some (unsubscribe u w)"
| "step n w (Call_seal c) = Some (snd (seal w c))"
| "step n w (Call_mute c) = Some (snd (mute w c))"
| "step n w (Call_unmute c) = Some (snd (unmute w c))"
| "step n w (Call_bind t deps computeFn) = map_option snd (bind n w t deps computeFn)"
| "step n w Run_microtask = run_microtask n w"
| "step n w (Run_microtasks k) = drain k n w"
| "step n w (Fire_timer h) = fire_timer n w h"
| "step n w (Elapse ms) = Some (elapse ms w)"

fun run :: "nat \<Rightarrow> 'v World \<Rightarrow> 'v event list \<Rightarrow> 'v World option" where
  "run n w [] = Some w"
| "run n w (e # es) = (case step n w e of None \<Rightarrow> None | Some w1 \<Rightarrow> run n w1 es)"

text \<open>The world before any cell is created: nothing is pending and every reference is
  still unallocated (a placeholder built from \<open>d\<close> stands there).\<close>

definition start :: "'v \<Rightarrow> 'v World" where
  "start d =
     \<lparr>cells = (\<lambda>_. \<lparr>u_state = unsealed, u_subscribers = 0, u_value = d,
                      u_options = \<lparr>debounce = None, throttle = None\<rparr>, u_history = [d],
                      u_debounceTimeout = None, u_throttleTimeout = None\<rparr>),
      arrays = (\<lambda>_. []),
      closures = (\<lambda>_. \<lparr>target = 0, dependencies = [], compute = (\<lambda>_. d)\<rparr>),
      next_cell = 0, next_array = 0, next_closure = 0, next_handle = 1,
      timers = [], microtasks = [], now = 0, calls = []\<rparr>"

text \<open>The call a listener \<open>l\<close> receives from \<^verbatim>\<open>_notify\<close>.\<close>

definition notification :: "'v \<Rightarrow> 'v \<Rightarrow> nat \<Rightarrow> 'v Call" where
  "notification new old l = \<lparr>callee = l, arg_newValue = new, arg_oldValue = Some old\<rparr>"

subsection \<open>What no event undoes\<close>

text \<open>\<open>later c w w'\<close>: between \<open>w\<close> and \<open>w'\<close> no cell was lost, the history of the
  cell \<open>c\<close> only grew at its end, and if \<open>c\<close> was sealed it still is, with the value
  it had.\<close>

definition later :: "nat \<Rightarrow> 'v World \<Rightarrow> 'v World \<Rightarrow> bool" where
  "later c w w' \<longleftrightarrow>
     next_cell w \<le> next_cell w' \<and>
     (\<exists>ys. u_history (cells w' c) = u_history (cells w c) @ ys) \<and>
     (u_state (cells w c) = sealed \<longrightarrow>
        u_state (cells w' c) = sealed \<and> u_value (cells w' c) = u_value (cells w c))"


subsection \<open>Example worlds\<close>

text \<open>A cell holding 5 with the listener 1 registered twice, around the listener 2.\<close>

definition listeners_121 :: "int World" where
  "listeners_121 =
     the (run 0 (start 0)
       [Call_create 5 None, Call_subscribe 0 (Listener 1), Call_subscribe 0 (Listener 2),
        Call_subscribe 0 (Listener 1)])"

text \<open>A script of rapid calls: after the first \<^verbatim>\<open>set\<close>, each pair \<open>(gap, v)\<close> lets
  \<open>gap\<close> milliseconds pass and calls \<^verbatim>\<open>set(v)\<close>.\<close>

fun burst :: "nat \<Rightarrow> (nat \<times> 'v) list \<Rightarrow> 'v event list" where
  "burst c [] = []"
| "burst c (gv # rest) = Elapse (fst gv) # Call_set c (snd gv) # burst c rest"

text \<open>The world that the script \<open>Call_set c v # burst c rest\<close> leaves behind on a cell
  with debounce \<open>D\<close>: the last value is held, the timers of the earlier calls are
  cleared, and one timer is pending, for the last call.\<close>

definition after_burst :: "nat \<Rightarrow> nat \<Rightarrow> 'v \<Rightarrow> (nat \<times> 'v) list \<Rightarrow> 'v World \<Rightarrow> 'v World" where
  "after_burst c D v rest w =
     upd_cell c (\<lambda>ob. ob\<lparr>u_value := last (v # map snd rest),
                          u_debounceTimeout := Some (next_handle w + length rest)\<rparr>)
       (w\<lparr>timers := filter (\<lambda>t. Some (handle t) \<noteq> u_debounceTimeout (cells w c)) (timers w)
                    @ [\<lparr>handle = next_handle w + length rest,
                        due = now w + sum_list (map fst rest) + D,
                        callback = DebounceExpired c (last (v # map snd rest))
                                     (last (butlast (u_value (cells w c) # v # map snd rest)))\<rparr>],
          next_handle := Suc (next_handle w + length rest),
          now := now w + sum_list (map fst rest)\<rparr>)"

text \<open>Cells holding 0 with the listener 1, one with a debounce and one with a throttle
  of 10 ms; and the first after a \<^verbatim>\<open>set(1)\<close>, its debounce timer pending.\<close>

definition debounced_cell :: "int World" where
  "debounced_cell =
     the (run 0 (start 0)
       [Call_create 0 (Some \<lparr>debounce = Some 10, throttle = None\<rparr>), Call_subscribe 0 (Listener 1)])"

definition throttled_cell :: "int World" where
  "throttled_cell =
     the (run 0 (start 0)
       [Call_create 0 (Some \<lparr>debounce = None, throttle = Some 10\<rparr>), Call_subscribe 0 (Listener 1)])"

definition debounce_pending :: "int World" where
  "debounce_pending = the (run 0 debounced_cell [Call_set 0 1])"

subsection \<open>Scripts of calls and what they keep\<close>

text \<open>A subscriber that is a listener handed in from outside, not a closure of \<^verbatim>\<open>bind\<close>.\<close>

fun is_listener :: "Subscriber \<Rightarrow> bool" where
  "is_listener (Listener l) = True"
| "is_listener (Recompute k) = False"

text \<open>
  What a notification never changes: the subscriber arrays, the closures, what is allocated,
  and for each cell its array, its state and its options. Only \<^verbatim>\<open>subscribe\<close>, the unsubscribe
  closure, \<^verbatim>\<open>seal\<close>, \<^verbatim>\<open>mute\<close>, \<^verbatim>\<open>unmute\<close>, \<^verbatim>\<open>bind\<close> and the constructor do.
\<close>

definition layout ::
  "'v World \<Rightarrow> (nat \<Rightarrow> Subscriber list) \<times> (nat \<Rightarrow> 'v Closure) \<times> nat \<times> nat \<times> nat \<times>
     (nat \<Rightarrow> nat \<times> ObservableState \<times> ObservableOptions)" where
  "layout w = (arrays w, closures w, next_cell w, next_array w, next_closure w,
              \<lambda>c. (u_subscribers (cells w c), u_state (cells w c), u_options (cells w c)))"

text \<open>
  An event a program can cause when \<open>k\<close> cells exist: a call names cells that exist, and
  \<^verbatim>\<open>subscribe\<close> is given a listener (the closures of \<^verbatim>\<open>bind\<close> are private to it).
\<close>

fun in_scope :: "nat \<Rightarrow> 'v event \<Rightarrow> bool" where
  "in_scope k (Call_create v opts) = True"
| "in_scope k (Call_set c v) = (c < k)"
| "in_scope k (Call_update c f) = (c < k)"
| "in_scope k (Call_subscribe c s) = (c < k \<and> is_listener s)"
| "in_scope k (Call_unsubscribe u) = (fst u < k)"
| "in_scope k (Call_seal c) = (c < k)"
| "in_scope k (Call_mute c) = (c < k)"
| "in_scope k (Call_unmute c) = (c < k)"
| "in_scope k (Call_bind t deps f) = (t < k \<and> (\<forall>d\<in>set deps. d < k))"
| "in_scope k Run_microtask = True"
| "in_scope k (Run_microtasks j) = True"
| "in_scope k (Fire_timer h) = True"
| "in_scope k (Elapse ms) = True"

text \<open>The number of cells an event creates.\<close>

fun creates :: "'v event \<Rightarrow> nat" where
  "creates (Call_create v opts) = 1"
| "creates e = 0"

text \<open>A script each event of which is in scope when its turn comes, \<open>k\<close> cells existing at first.\<close>

fun scoped :: "nat \<Rightarrow> 'v event list \<Rightarrow> bool" where
  "scoped k [] = True"
| "scoped k (e # es) = (in_scope k e \<and> scoped (k + creates e) es)"

text \<open>The cells an event subscribes to, directly or as the sources of a \<^verbatim>\<open>bind\<close>.\<close>

fun subscribes_to :: "'v event \<Rightarrow> nat list" where
  "subscribes_to (Call_subscribe c s) = [c]"
| "subscribes_to (Call_bind t deps f) = deps"
| "subscribes_to e = []"

text \<open>Every cell that exists holds an array that has been allocated.\<close>

definition allocated :: "'v World \<Rightarrow> bool" where
  "allocated w \<longleftrightarrow> (\<forall>c<next_cell w. u_subscribers (cells w c) < next_array w)"

text \<open>The cell \<open>c\<close> exists, its subscriber array is empty and no other cell shares it.\<close>

definition emptied :: "nat \<Rightarrow> 'v World \<Rightarrow> bool" where
  "emptied c w \<longleftrightarrow>
     c < next_cell w \<and> allocated w \<and> subs w c = [] \<and>
     (\<forall>c'<next_cell w. c' \<noteq> c \<longrightarrow> u_subscribers (cells w c') \<noteq> u_subscribers (cells w c))"

text \<open>The array a suspended loop iterates, and the cell a timer callback belongs to.\<close>

fun loop_array :: "'v Microtask \<Rightarrow> nat" where
  "loop_array (ResumeNotify c a i new old) = a"

fun timer_cell :: "'v TimerCallback \<Rightarrow> nat" where
  "timer_cell (ThrottleExpired c) = c"
| "timer_cell (DebounceExpired c new old) = c"

text \<open>The subscriber an event registers with \<^verbatim>\<open>subscribe\<close>.\<close>

fun registers :: "'v event \<Rightarrow> Subscriber list" where
  "registers (Call_subscribe c s) = [s]"
| "registers e = []"

text \<open>
  Every closure that can still be called (it stands in the array of a cell that exists or of a
  suspended loop) has a target that exists, and so has every pending timer.
\<close>

definition grounded :: "'v World \<Rightarrow> bool" where
  "grounded w \<longleftrightarrow>
     (\<forall>c<next_cell w. \<forall>k. Recompute k \<in> set (subs w c) \<longrightarrow> target (closures w k) < next_cell w) \<and>
     (\<forall>m\<in>set (microtasks w). \<forall>k. Recompute k \<in> set (arrays w (loop_array m)) \<longrightarrow>
        target (closures w k) < next_cell w) \<and>
     (\<forall>t\<in>set (timers w). timer_cell (callback t) < next_cell w)"

text \<open>
  The listener \<open>l\<close> is registered on no cell that exists and stands in no array that a suspended
  loop iterates.
\<close>

definition detached :: "nat \<Rightarrow> 'v World \<Rightarrow> bool" where
  "detached l w \<longleftrightarrow>
     (\<forall>c<next_cell w. Listener l \<notin> set (subs w c)) \<and>
     (\<forall>m\<in>set (microtasks w). Listener l \<notin> set (arrays w (loop_array m)))"

text \<open>The calls the listener \<open>l\<close> has received.\<close>

definition calls_of :: "nat \<Rightarrow> 'v World \<Rightarrow> 'v Call list" where
  "calls_of l w = filter (\<lambda>x. callee x = l) (calls w)"
text \<open>Both: nothing that can still happen calls the listener \<open>l\<close>.\<close>

definition quiet :: "nat \<Rightarrow> 'v World \<Rightarrow> bool" where
  "quiet l w \<longleftrightarrow> detached l w \<and> grounded w"

subsection \<open>A binding in place\<close>

text \<open>
  The predicates below describe a world in which one \<^verbatim>\<open>bind\<close> of a target \<open>t\<close> to the sources
  \<open>deps\<close> with the compute function \<open>f\<close> is in place; \<open>ks\<close> are the closures it subscribed, one
  for each source, in order. Other bindings may be in place as well: a source may feed other
  targets, and the target may be the source of further bindings. The predicates are not code
  of the library: they state what the proofs about \<^verbatim>\<open>bind\<close> keep invariant.
\<close>






















section \<open>Auxiliary facts\<close>

lemma upd_cell_simps [simp]:
  "cells (upd_cell c f w) = (cells w)(c := f (cells w c))"
  "arrays (upd_cell c f w) = arrays w"
  "closures (upd_cell c f w) = closures w"
  "next_cell (upd_cell c f w) = next_cell w"
  "next_array (upd_cell c f w) = next_array w"
  "next_closure (upd_cell c f w) = next_closure w"
  "next_handle (upd_cell c f w) = next_handle w"
  "timers (upd_cell c f w) = timers w"
  "microtasks (upd_cell c f w) = microtasks w"
  "now (upd_cell c f w) = now w"
  "calls (upd_cell c f w) = calls w"
  by (simp_all add: upd_cell_def)

lemma clearTimeout_simps [simp]:
  "cells (clearTimeout h w) = cells w"
  "arrays (clearTimeout h w) = arrays w"
  "closures (clearTimeout h w) = closures w"
  "next_cell (clearTimeout h w) = next_cell w"
  "next_array (clearTimeout h w) = next_array w"
  "next_closure (clearTimeout h w) = next_closure w"
  "next_handle (clearTimeout h w) = next_handle w"
  "timers (clearTimeout h w) = filter (\<lambda>t. handle t \<noteq> h) (timers w)"
  "microtasks (clearTimeout h w) = microtasks w"
  "now (clearTimeout h w) = now w"
  "calls (clearTimeout h w) = calls w"
  by (simp_all add: clearTimeout_def)

lemma setTimeout_simps [simp]:
  "fst (setTimeout cb d w) = next_handle w"
  "cells (snd (setTimeout cb d w)) = cells w"
  "arrays (snd (setTimeout cb d w)) = arrays w"
  "closures (snd (setTimeout cb d w)) = closures w"
  "next_cell (snd (setTimeout cb d w)) = next_cell w"
  "next_array (snd (setTimeout cb d w)) = next_array w"
  "next_closure (snd (setTimeout cb d w)) = next_closure w"
  "next_handle (snd (setTimeout cb d w)) = Suc (next_handle w)"
  "timers (snd (setTimeout cb d w)) = timers w @ [\<lparr>handle = next_handle w, due = now w + d, callback = cb\<rparr>]"
  "microtasks (snd (setTimeout cb d w)) = microtasks w"
  "now (snd (setTimeout cb d w)) = now w"
  "calls (snd (setTimeout cb d w)) = calls w"
  by (simp_all add: setTimeout_def)

lemma later_refl [simp]: "later c w w"
  by (simp add: later_def)

lemma later_trans: "later c w w1 \<Longrightarrow> later c w1 w2 \<Longrightarrow> later c w w2"
  by (auto simp: later_def)

lemma later_cells: "cells w' c = cells w c \<Longrightarrow> next_cell w' = next_cell w \<Longrightarrow> later c w w'"
  by (simp add: later_def)

lemma throttle_gate_later: "throttle_gate c' w = Some w1 \<Longrightarrow> later c w w1"
  by (auto simp: throttle_gate_def later_def split_beta Let_def split: if_splits)

lemma debounce_restart_later: "later c w (debounce_restart c' new old w)"
  by (auto simp: debounce_restart_def later_def split_beta Let_def split: option.splits)

lemma notify_loop_by_later:
  assumes "\<And>w s new old w'. call w s new old = Some w' \<Longrightarrow> later c w w'"
    and "notify_loop_by call w c' a i new old = Some w'"
  shows "later c w w'"
  using assms(2) assms(1)[of w "arrays w a ! i" new "Some old"]
  by (auto simp: notify_loop_by_def later_def split: if_splits option.splits)

lemma notify_by_later:
  assumes "\<And>w s new old w'. call w s new old = Some w' \<Longrightarrow> later c w w'"
    and "notify_by call w c' new old = Some w'"
  shows "later c w w'"
  using assms(2)
  by (auto simp: notify_by_def split: if_splits option.splits
      intro: later_trans[OF throttle_gate_later] debounce_restart_later
             notify_loop_by_later[OF assms(1)] throttle_gate_later)

lemma set_value_by_later:
  assumes "\<And>w s new old w'. call w s new old = Some w' \<Longrightarrow> later c w w'"
    and "set_value_by call w c' v = Some (r, w')"
  shows "later c w w'"
proof (cases "u_state (cells w c') = sealed")
  case True
  with assms(2) show ?thesis by (simp add: set_value_by_def)
next
  case False
  let ?w1 = "upd_cell c' (\<lambda>ob. ob\<lparr>u_value := v\<rparr>) w"
  from False assms(2) have "notify_by call ?w1 c' v (u_value (cells w c')) = Some w'"
    by (auto simp: set_value_by_def)
  then have "later c ?w1 w'" using assms(1) notify_by_later[of call c] by blast
  moreover from False have "later c w ?w1" by (auto simp: later_def)
  ultimately show ?thesis by (rule later_trans[rotated])
qed

lemma invoke_later: "invoke n w s new old = Some w' \<Longrightarrow> later c w w'"
proof (induction n w s new old arbitrary: w' rule: invoke.induct)
  case (1 n w l new old)
  then show ?case by (auto simp: later_def)
next
  case (2 w k new old)
  then show ?case by simp
next
  case (3 n w k new old)
  from "3.prems" obtain r where
    "set_value_by (invoke n) w (target (closures w k))
       (compute (closures w k) (map (\<lambda>d. u_value (cells w d)) (dependencies (closures w k)))) = Some (r, w')"
    by auto
  then show ?case by (rule set_value_by_later[where call = "invoke n", rotated]) (rule "3.IH")
qed


lemma notify_loop_later: "notify_loop n w c' a i new old = Some w' \<Longrightarrow> later c w w'"
  unfolding notify_loop_def by (erule notify_loop_by_later[rotated]) (rule invoke_later)

lemma set_value_later: "set_value n w c' v = Some (r, w') \<Longrightarrow> later c w w'"
  unfolding set_value_def by (erule set_value_by_later[rotated]) (rule invoke_later)

lemma subscribe_later:
  assumes "subscribe n w c' s = Some (u, w')"
  shows "later c w w'"
proof -
  let ?w1 = "w\<lparr>arrays := (arrays w)(u_subscribers (cells w c') := arrays w (u_subscribers (cells w c')) @ [s])\<rparr>"
  from assms obtain new old where "invoke n ?w1 s new old = Some w'"
    by (auto simp: subscribe_def Let_def)
  then have "later c ?w1 w'" by (rule invoke_later)
  moreover have "later c w ?w1" by (simp add: later_def)
  ultimately show ?thesis by (rule later_trans[rotated])
qed

lemma unsubscribe_later: "later c w (unsubscribe u w)"
  by (auto simp: unsubscribe_def Let_def later_def)

lemma seal_later: "later c w (snd (seal w c'))"
  by (auto simp: seal_def Let_def later_def)

lemma mute_later: "later c w (snd (mute w c'))"
  by (auto simp: mute_def later_def)

lemma unmute_later: "later c w (snd (unmute w c'))"
  by (auto simp: unmute_def later_def)

lemma update_later: "update n w c' f = Some (r, w') \<Longrightarrow> later c w w'"
  by (auto simp: update_def dest: set_value_later)

lemma create_later: "c < next_cell w \<Longrightarrow> later c w (snd (create v options w))"
  by (auto simp: create_def later_def)

lemma bind_subscribe_later:
  "bind_subscribe n w t deps computeFn ds = Some (us, w') \<Longrightarrow> later c w w'"
proof (induction ds arbitrary: w us)
  case Nil
  then show ?case by simp
next
  case (Cons d ds)
  let ?w1 = "w\<lparr>closures := (closures w)(next_closure w := \<lparr>target = t, dependencies = deps, compute = computeFn\<rparr>),
                 next_closure := Suc (next_closure w)\<rparr>"
  from Cons.prems obtain u w2 us' where
    s: "subscribe n ?w1 d (Recompute (next_closure w)) = Some (u, w2)" and
    r: "bind_subscribe n w2 t deps computeFn ds = Some (us', w')"
    by (auto simp: Let_def split: option.splits)
  have "later c w ?w1" by (simp add: later_def)
  with subscribe_later[OF s] Cons.IH[OF r] show ?case
    by (blast intro: later_trans)
qed

lemma bind_later: "bind n w t deps computeFn = Some (us, w') \<Longrightarrow> later c w w'"
  by (auto simp: bind_def split: option.splits dest!: bind_subscribe_later[where c = c] set_value_later[where c = c]
      intro: later_trans)

lemma run_microtask_later: "run_microtask n w = Some w' \<Longrightarrow> later c w w'"
proof -
  assume a: "run_microtask n w = Some w'"
  then obtain c' a' i new old rest where
    m: "microtasks w = ResumeNotify c' a' i new old # rest" and
    l: "notify_loop n (w\<lparr>microtasks := rest\<rparr>) c' a' i new old = Some w'"
    by (auto simp: run_microtask_def split: list.splits Microtask.splits)
  have "later c w (w\<lparr>microtasks := rest\<rparr>)" by (simp add: later_def)
  with notify_loop_later[OF l] show ?thesis by (blast intro: later_trans)
qed

lemma drain_later: "drain k n w = Some w' \<Longrightarrow> later c w w'"
proof (induction k arbitrary: w)
  case 0
  then show ?case by (simp split: if_splits)
next
  case (Suc k)
  show ?case
  proof (cases "microtasks w = []")
    case True
    with Suc.prems show ?thesis by simp
  next
    case False
    with Suc.prems obtain w1 where r: "run_microtask n w = Some w1" and d: "drain k n w1 = Some w'"
      by (auto split: option.splits)
    from run_microtask_later[OF r] Suc.IH[OF d] show ?thesis by (rule later_trans)
  qed
qed

lemma fire_timer_later: "fire_timer n w h = Some w' \<Longrightarrow> later c w w'"
  by (auto simp: fire_timer_def Let_def later_def[of c w "upd_cell _ _ _"]
      split: option.splits if_splits TimerCallback.splits
      dest!: notify_loop_later[where c = c] simp: later_def)

lemma elapse_later: "later c w (elapse ms w)"
  by (simp add: elapse_def later_def)

lemma step_later: "c < next_cell w \<Longrightarrow> step n w e = Some w' \<Longrightarrow> later c w w'"
  by (cases e)
    (auto simp: create_later unsubscribe_later seal_later mute_later unmute_later elapse_later
      dest: set_value_later update_later subscribe_later bind_later run_microtask_later fire_timer_later
        drain_later)

lemma run_later: "c < next_cell w \<Longrightarrow> run n w es = Some w' \<Longrightarrow> later c w w'"
proof (induction es arbitrary: w)
  case Nil
  then show ?case by simp
next
  case (Cons e es)
  from Cons.prems obtain w1 where s: "step n w e = Some w1" and r: "run n w1 es = Some w'"
    by (auto split: option.splits)
  from step_later[OF Cons.prems(1) s] have l: "later c w w1" .
  then have "c < next_cell w1" using Cons.prems(1) by (simp add: later_def)
  from l Cons.IH[OF this r] show ?case by (rule later_trans)
qed

lemma start_simps [simp]:
  "next_cell (start d) = 0" "next_array (start d) = 0" "next_closure (start d) = 0"
  "next_handle (start d) = 1" "timers (start d) = []" "microtasks (start d) = []"
  "now (start d) = 0" "calls (start d) = []" "arrays (start d) a = []"
  by (simp_all add: start_def)


lemma upd_cell_same: "upd_cell c (\<lambda>ob. ob\<lparr>u_value := u_value (cells w c)\<rparr>) w = w"
  by (simp add: upd_cell_def)

lemma drain_listeners:
  assumes "arrays w a = map Listener ls"
    and "microtasks w = [ResumeNotify c a i new old]"
  shows "drain (Suc (length ls - i)) n w =
         Some (upd_cell c (\<lambda>ob. ob\<lparr>u_history := u_history ob @ [new]\<rparr>)
                 (w\<lparr>microtasks := [], calls := calls w @ map (notification new old) (drop i ls)\<rparr>))"
  using assms
proof (induction "length ls - i" arbitrary: i w)
  case 0
  then show ?case
    by (simp add: run_microtask_def notify_loop_def notify_loop_by_def upd_cell_def)
next
  case (Suc k)
  then have i: "i < length ls" by simp
  let ?w1 = "w\<lparr>microtasks := [ResumeNotify c a (Suc i) new old],
                calls := calls w @ [notification new old (ls ! i)]\<rparr>"
  from Suc.prems i have r: "run_microtask n w = Some ?w1"
    by (simp add: run_microtask_def notify_loop_def notify_loop_by_def notification_def)
  from Suc.hyps(2) have k: "k = length ls - Suc i" by simp
  have "drain (Suc (length ls - Suc i)) n ?w1 =
         Some (upd_cell c (\<lambda>ob. ob\<lparr>u_history := u_history ob @ [new]\<rparr>)
                 (?w1\<lparr>microtasks := [], calls := calls ?w1 @ map (notification new old) (drop (Suc i) ls)\<rparr>))"
    by (rule Suc.hyps(1)[OF k]) (simp_all add: Suc.prems)
  moreover from i have "drop i ls = ls ! i # drop (Suc i) ls"
    by (simp add: Cons_nth_drop_Suc)
  moreover from i have "Suc (length ls - i) = Suc (Suc (length ls - Suc i))" by simp
  ultimately show ?case using r Suc.prems(2)
    by (simp add: upd_cell_def)
qed

lemma notify_loop_listeners:
  assumes "arrays w a = map Listener ls" and "microtasks w = []"
  shows "\<exists>w1. notify_loop n w c a 0 new old = Some w1 \<and>
           drain (length ls) n w1 =
             Some (upd_cell c (\<lambda>ob. ob\<lparr>u_history := u_history ob @ [new]\<rparr>)
                    (w\<lparr>calls := calls w @ map (notification new old) ls\<rparr>))"
proof (cases ls)
  case Nil
  with assms show ?thesis
    by (simp add: notify_loop_def notify_loop_by_def upd_cell_def)
next
  case (Cons l ls')
  let ?w1 = "w\<lparr>calls := calls w @ [notification new old l],
                microtasks := [ResumeNotify c a 1 new old]\<rparr>"
  from assms Cons have 1: "notify_loop n w c a 0 new old = Some ?w1"
    by (simp add: notify_loop_def notify_loop_by_def notification_def)
  have "drain (Suc (length ls - 1)) n ?w1 =
         Some (upd_cell c (\<lambda>ob. ob\<lparr>u_history := u_history ob @ [new]\<rparr>)
                 (?w1\<lparr>microtasks := [], calls := calls ?w1 @ map (notification new old) (drop 1 ls)\<rparr>))"
    by (rule drain_listeners) (simp_all add: assms)
  with 1 Cons assms(2) show ?thesis by (simp add: upd_cell_def)
qed


lemma set_value_plain:
  assumes "u_state (cells w c) = unsealed"
    and "\<not> truthy (throttle (u_options (cells w c)))"
    and "\<not> truthy (debounce (u_options (cells w c)))"
    and "microtasks w = []"
    and "subs w c = map Listener ls"
    and "v \<noteq> u_value (cells w c)"
  shows "\<exists>w1. set_value n w c v = Some (Ok, w1) \<and>
           drain (length ls) n w1 =
             Some (upd_cell c (\<lambda>ob. ob\<lparr>u_value := v, u_history := u_history ob @ [v]\<rparr>)
                    (w\<lparr>calls := calls w @ map (notification v (u_value (cells w c))) ls\<rparr>))"
proof -
  let ?w0 = "upd_cell c (\<lambda>ob. ob\<lparr>u_value := v\<rparr>) w"
  from assms(5) have a: "arrays ?w0 (u_subscribers (cells ?w0 c)) = map Listener ls"
    by (simp add: subs_def)
  from assms(4) have m: "microtasks ?w0 = []" by simp
  from notify_loop_listeners[OF a m, of n c v "u_value (cells w c)"]
  obtain w1 where 1: "notify_loop n ?w0 c (u_subscribers (cells ?w0 c)) 0 v (u_value (cells w c)) = Some w1"
    and 2: "drain (length ls) n w1 =
             Some (upd_cell c (\<lambda>ob. ob\<lparr>u_history := u_history ob @ [v]\<rparr>)
                    (?w0\<lparr>calls := calls ?w0 @ map (notification v (u_value (cells w c))) ls\<rparr>))"
    by blast
  from assms(1,2,3,6) 1 have "set_value n w c v = Some (Ok, w1)"
    by (simp add: set_value_def set_value_by_def notify_by_def throttle_gate_def notify_loop_def)
  moreover have "upd_cell c (\<lambda>ob. ob\<lparr>u_history := u_history ob @ [v]\<rparr>)
                    (?w0\<lparr>calls := calls ?w0 @ map (notification v (u_value (cells w c))) ls\<rparr>)
     = upd_cell c (\<lambda>ob. ob\<lparr>u_value := v, u_history := u_history ob @ [v]\<rparr>)
                    (w\<lparr>calls := calls w @ map (notification v (u_value (cells w c))) ls\<rparr>)"
    by (simp add: upd_cell_def)
  ultimately show ?thesis using 2 by simp
qed

lemma subs_unsubscribe: "subs (unsubscribe (c, s) w) c = filter (\<lambda>x. x \<noteq> s) (subs w c)"
  by (simp add: unsubscribe_def Let_def subs_def)

lemma listeners_121_simps:
  "u_state (cells listeners_121 0) = unsealed"
  "u_options (cells listeners_121 0) = \<lparr>debounce = None, throttle = None\<rparr>"
  "u_value (cells listeners_121 0) = 5"
  "u_history (cells listeners_121 0) = [5]"
  "subs listeners_121 0 = map Listener [1, 2, 1]"
  "microtasks listeners_121 = []"
  "timers listeners_121 = []"
  "calls listeners_121 = [\<lparr>callee = 1, arg_newValue = 5, arg_oldValue = None\<rparr>,
      \<lparr>callee = 2, arg_newValue = 5, arg_oldValue = None\<rparr>, \<lparr>callee = 1, arg_newValue = 5, arg_oldValue = None\<rparr>]"
  by (simp_all add: listeners_121_def create_def subscribe_def Let_def subs_def second_to_last_def start_def)

lemma set_value_throttled:
  assumes "u_state (cells w c) \<noteq> sealed"
    and "truthy (throttle (u_options (cells w c)))"
    and "u_throttleTimeout (cells w c) \<noteq> None"
  shows "set_value n w c v = Some (Ok, upd_cell c (\<lambda>ob. ob\<lparr>u_value := v\<rparr>) w)"
  using assms
  by (auto simp: set_value_def set_value_by_def notify_by_def throttle_gate_def)

lemma set_value_throttle_open:
  assumes "u_state (cells w c) = unsealed"
    and "throttle (u_options (cells w c)) = Some T" and "T \<noteq> 0"
    and "\<not> truthy (debounce (u_options (cells w c)))"
    and "u_throttleTimeout (cells w c) = None"
    and "microtasks w = []"
    and "subs w c = map Listener ls"
    and "v \<noteq> u_value (cells w c)"
  shows "\<exists>w1. set_value n w c v = Some (Ok, w1) \<and>
           drain (length ls) n w1 =
             Some (upd_cell c (\<lambda>ob. ob\<lparr>u_value := v, u_throttleTimeout := Some (next_handle w),
                                       u_history := u_history ob @ [v]\<rparr>)
                    (w\<lparr>timers := timers w @ [\<lparr>handle = next_handle w, due = now w + T,
                                               callback = ThrottleExpired c\<rparr>],
                       next_handle := Suc (next_handle w),
                       calls := calls w @ map (notification v (u_value (cells w c))) ls\<rparr>))"
proof -
  let ?w0 = "upd_cell c (\<lambda>ob. ob\<lparr>u_value := v\<rparr>) w"
  let ?w1 = "upd_cell c (\<lambda>ob. ob\<lparr>u_throttleTimeout := Some (next_handle w)\<rparr>)
               (snd (setTimeout (ThrottleExpired c) T ?w0))"
  from assms(2,3,5) have g: "throttle_gate c ?w0 = Some ?w1"
    by (simp add: throttle_gate_def truthy_def split_beta)
  from assms(7) have a: "arrays ?w1 (u_subscribers (cells ?w1 c)) = map Listener ls"
    by (simp add: subs_def)
  from assms(6) have m: "microtasks ?w1 = []" by simp
  from notify_loop_listeners[OF a m, of n c v "u_value (cells w c)"]
  obtain w2 where 1: "notify_loop n ?w1 c (u_subscribers (cells ?w1 c)) 0 v (u_value (cells w c)) = Some w2"
    and 2: "drain (length ls) n w2 =
             Some (upd_cell c (\<lambda>ob. ob\<lparr>u_history := u_history ob @ [v]\<rparr>)
                    (?w1\<lparr>calls := calls ?w1 @ map (notification v (u_value (cells w c))) ls\<rparr>))"
    by blast
  from assms(1,4,8) g 1 have "set_value n w c v = Some (Ok, w2)"
    by (simp add: set_value_def set_value_by_def notify_by_def notify_loop_def)
  moreover have "upd_cell c (\<lambda>ob. ob\<lparr>u_history := u_history ob @ [v]\<rparr>)
                    (?w1\<lparr>calls := calls ?w1 @ map (notification v (u_value (cells w c))) ls\<rparr>)
     = upd_cell c (\<lambda>ob. ob\<lparr>u_value := v, u_throttleTimeout := Some (next_handle w),
                                       u_history := u_history ob @ [v]\<rparr>)
                    (w\<lparr>timers := timers w @ [\<lparr>handle = next_handle w, due = now w + T,
                                               callback = ThrottleExpired c\<rparr>],
                       next_handle := Suc (next_handle w),
                       calls := calls w @ map (notification v (u_value (cells w c))) ls\<rparr>)"
    by (simp add: upd_cell_def setTimeout_def)
  ultimately show ?thesis using 2 by simp
qed

lemma fire_throttle_timer:
  assumes "find (\<lambda>t. handle t = h) (timers w) = Some t"
    and "callback t = ThrottleExpired c"
    and "due t \<le> now w" and "microtasks w = []"
    and "u_throttleTimeout (cells w c) = Some h"
  shows "fire_timer n w h =
           Some (upd_cell c (\<lambda>ob. ob\<lparr>u_throttleTimeout := None\<rparr>)
                   (w\<lparr>timers := filter (\<lambda>t. handle t \<noteq> h) (timers w)\<rparr>))"
  using assms by (simp add: fire_timer_def Let_def clearTimeout_def)

lemma fire_timer_early:
  assumes "find (\<lambda>t. handle t = h) (timers w) = Some t" and "now w < due t"
  shows "fire_timer n w h = None"
  using assms by (simp add: fire_timer_def)

lemma fire_debounce_timer:
  assumes "find (\<lambda>t. handle t = h) (timers w) = Some t"
    and "callback t = DebounceExpired c new old"
    and "due t \<le> now w" and "microtasks w = []"
    and "subs w c = map Listener ls"
  shows "\<exists>w1. fire_timer n w h = Some w1 \<and>
           drain (length ls) n w1 =
             Some (upd_cell c (\<lambda>ob. ob\<lparr>u_history := u_history ob @ [new]\<rparr>)
                    (w\<lparr>timers := filter (\<lambda>t. handle t \<noteq> h) (timers w),
                       calls := calls w @ map (notification new old) ls\<rparr>))"
proof -
  let ?w1 = "clearTimeout h w"
  from assms(5) have a: "arrays ?w1 (u_subscribers (cells ?w1 c)) = map Listener ls"
    by (simp add: subs_def)
  from assms(4) have m: "microtasks ?w1 = []" by simp
  from notify_loop_listeners[OF a m, of n c new old]
  obtain w2 where 1: "notify_loop n ?w1 c (u_subscribers (cells ?w1 c)) 0 new old = Some w2"
    and 2: "drain (length ls) n w2 =
             Some (upd_cell c (\<lambda>ob. ob\<lparr>u_history := u_history ob @ [new]\<rparr>)
                    (?w1\<lparr>calls := calls ?w1 @ map (notification new old) ls\<rparr>))"
    by blast
  from assms(1-4) 1 have "fire_timer n w h = Some w2"
    by (simp add: fire_timer_def Let_def)
  with 2 show ?thesis by (simp add: clearTimeout_def)
qed

lemma set_value_debounced:
  assumes "u_state (cells w c) = unsealed"
    and "\<not> truthy (throttle (u_options (cells w c)))"
    and "debounce (u_options (cells w c)) = Some D" and "D \<noteq> 0"
    and "v \<noteq> u_value (cells w c)"
  shows "set_value n w c v =
           Some (Ok, upd_cell c (\<lambda>ob. ob\<lparr>u_value := v, u_debounceTimeout := Some (next_handle w)\<rparr>)
                  (w\<lparr>timers := filter (\<lambda>t. Some (handle t) \<noteq> u_debounceTimeout (cells w c)) (timers w)
                               @ [\<lparr>handle = next_handle w, due = now w + D,
                                   callback = DebounceExpired c v (u_value (cells w c))\<rparr>],
                     next_handle := Suc (next_handle w)\<rparr>))"
  using assms
  by (cases "u_debounceTimeout (cells w c)")
     (simp_all add: set_value_def set_value_by_def notify_by_def throttle_gate_def truthy_def
       debounce_restart_def setTimeout_def clearTimeout_def upd_cell_def)

lemma filter_fresh:
  "\<forall>t\<in>set ts. handle t \<noteq> H \<Longrightarrow> filter (\<lambda>t. handle t \<noteq> H) (filter Q ts) = filter Q ts"
  by (induction ts) auto

lemma run_burst:
  assumes "u_state (cells w c) = unsealed"
    and "\<not> truthy (throttle (u_options (cells w c)))"
    and "debounce (u_options (cells w c)) = Some D" and "D \<noteq> 0"
    and "distinct_adj (u_value (cells w c) # v # map snd rest)"
    and "\<forall>t\<in>set (timers w). handle t < next_handle w"
  shows "run n w (Call_set c v # burst c rest) = Some (after_burst c D v rest w)"
  using assms
proof (induction rest arbitrary: w v)
  case Nil
  then have "v \<noteq> u_value (cells w c)" by auto
  from set_value_debounced[OF Nil.prems(1-4) this, of n] show ?case
    by (simp add: after_burst_def)
next
  case (Cons gv rest)
  obtain g v2 where gv: "gv = (g, v2)" by (cases gv)
  let ?wa = "upd_cell c (\<lambda>ob. ob\<lparr>u_value := v, u_debounceTimeout := Some (next_handle w)\<rparr>)
                  (w\<lparr>timers := filter (\<lambda>t. Some (handle t) \<noteq> u_debounceTimeout (cells w c)) (timers w)
                               @ [\<lparr>handle = next_handle w, due = now w + D,
                                   callback = DebounceExpired c v (u_value (cells w c))\<rparr>],
                     next_handle := Suc (next_handle w)\<rparr>)"
  let ?wb = "elapse g ?wa"
  from Cons.prems have ne: "v \<noteq> u_value (cells w c)" by auto
  from set_value_debounced[OF Cons.prems(1-4) ne, of n]
  have 1: "set_value n w c v = Some (Ok, ?wa)" .
  have b1: "u_state (cells ?wb c) = unsealed" using Cons.prems(1) by (simp add: elapse_def)
  have b2: "\<not> truthy (throttle (u_options (cells ?wb c)))" using Cons.prems(2) by (simp add: elapse_def)
  have b3: "debounce (u_options (cells ?wb c)) = Some D" using Cons.prems(3) by (simp add: elapse_def)
  have b5: "distinct_adj (u_value (cells ?wb c) # v2 # map snd rest)"
    using Cons.prems(5) gv by (simp add: elapse_def)
  have b6: "\<forall>t\<in>set (timers ?wb). handle t < next_handle ?wb"
    using Cons.prems(6) by (auto simp: elapse_def less_Suc_eq)
  from Cons.IH[OF b1 b2 b3 Cons.prems(4) b5 b6]
  have 2: "run n ?wb (Call_set c v2 # burst c rest) = Some (after_burst c D v2 rest ?wb)" .
  have f: "filter (\<lambda>t. handle t \<noteq> next_handle w)
             (filter (\<lambda>t. Some (handle t) \<noteq> u_debounceTimeout (cells w c)) (timers w))
           = filter (\<lambda>t. Some (handle t) \<noteq> u_debounceTimeout (cells w c)) (timers w)"
    using Cons.prems(6) by (intro filter_fresh) auto
  have 3: "after_burst c D v2 rest ?wb = after_burst c D v (gv # rest) w"
    using f gv by (simp add: after_burst_def elapse_def upd_cell_def add.assoc add.commute add.left_commute)
  have "run n w (Call_set c v # burst c (gv # rest)) = run n ?wb (Call_set c v2 # burst c rest)"
    using 1 gv by simp
  with 2 3 show ?case by simp
qed

lemma find_last_timer:
  "\<forall>t\<in>set ts. handle t \<noteq> handle x \<Longrightarrow> find (\<lambda>t. handle t = handle x) (ts @ [x]) = Some x"
  by (induction ts) auto

lemmas eval_defs = create_def subscribe_def set_value_def set_value_by_def notify_by_def
  throttle_gate_def debounce_restart_def truthy_def setTimeout_def clearTimeout_def elapse_def
  fire_timer_def notify_loop_def notify_loop_by_def run_microtask_def upd_cell_def start_def
  second_to_last_def unsubscribe_def seal_def mute_def unmute_def subs_def get_def Let_def split_beta

lemma run_append:
  "run n w (es @ es') = (case run n w es of None \<Rightarrow> None | Some w1 \<Rightarrow> run n w1 es')"
  by (induction es arbitrary: w) (auto split: option.splits)

lemma debounced_cell_simps:
  "u_state (cells debounced_cell 0) = unsealed"
  "u_options (cells debounced_cell 0) = \<lparr>debounce = Some 10, throttle = None\<rparr>"
  "u_value (cells debounced_cell 0) = 0"
  "u_history (cells debounced_cell 0) = [0]"
  "u_debounceTimeout (cells debounced_cell 0) = None"
  "u_throttleTimeout (cells debounced_cell 0) = None"
  "subs debounced_cell 0 = map Listener [1]"
  "microtasks debounced_cell = []"
  "timers debounced_cell = []"
  "next_handle debounced_cell = 1"
  "next_cell debounced_cell = 1"
  "now debounced_cell = 0"
  "calls debounced_cell = [\<lparr>callee = 1, arg_newValue = 0, arg_oldValue = None\<rparr>]"
  by (simp_all add: debounced_cell_def eval_defs)

lemma throttled_cell_simps:
  "u_state (cells throttled_cell 0) = unsealed"
  "u_options (cells throttled_cell 0) = \<lparr>debounce = None, throttle = Some 10\<rparr>"
  "u_value (cells throttled_cell 0) = 0"
  "u_history (cells throttled_cell 0) = [0]"
  "u_debounceTimeout (cells throttled_cell 0) = None"
  "u_throttleTimeout (cells throttled_cell 0) = None"
  "subs throttled_cell 0 = map Listener [1]"
  "microtasks throttled_cell = []"
  "timers throttled_cell = []"
  "next_handle throttled_cell = 1"
  "next_cell throttled_cell = 1"
  "now throttled_cell = 0"
  "calls throttled_cell = [\<lparr>callee = 1, arg_newValue = 0, arg_oldValue = None\<rparr>]"
  by (simp_all add: throttled_cell_def eval_defs)



lemma debounce_burst_delivers:
  assumes "u_state (cells w c) = unsealed"
    and "\<not> truthy (throttle (u_options (cells w c)))"
    and "debounce (u_options (cells w c)) = Some D" and "0 < D"
    and "distinct_adj (get w c # v # map snd rest)"
    and "\<forall>t\<in>set (timers w). handle t < next_handle w"
    and "microtasks w = []" and "subs w c = map Listener ls"
    and "D \<le> wait"
  shows "\<exists>w1 w2.
      run n w (Call_set c v # burst c rest) = Some w1 \<and>
      calls w1 = calls w \<and> microtasks w1 = [] \<and>
      u_history (cells w1 c) = u_history (cells w c) \<and>
      get w1 c = last (v # map snd rest) \<and>
      timers w1 = filter (\<lambda>t. Some (handle t) \<noteq> u_debounceTimeout (cells w c)) (timers w)
                  @ [\<lparr>handle = next_handle w + length rest, due = now w1 + D,
                      callback = DebounceExpired c (last (v # map snd rest))
                                   (last (butlast (get w c # v # map snd rest)))\<rparr>] \<and>
      (\<forall>early<D. fire_timer n (elapse early w1) (next_handle w + length rest) = None) \<and>
      run n w1 [Elapse wait, Fire_timer (next_handle w + length rest), Run_microtasks (length ls)] = Some w2 \<and>
      calls w2 = calls w @ map (notification (last (v # map snd rest))
                                  (last (butlast (get w c # v # map snd rest)))) ls \<and>
      u_history (cells w2 c) = u_history (cells w c) @ [last (v # map snd rest)] \<and>
      get w2 c = last (v # map snd rest) \<and>
      timers w2 = filter (\<lambda>t. Some (handle t) \<noteq> u_debounceTimeout (cells w c)) (timers w) \<and>
      microtasks w2 = []"
proof -
  let ?H = "next_handle w + length rest"
  let ?new = "last (v # map snd rest)"
  let ?old = "last (butlast (u_value (cells w c) # v # map snd rest))"
  let ?keep = "filter (\<lambda>t. Some (handle t) \<noteq> u_debounceTimeout (cells w c)) (timers w)"
  let ?w1 = "after_burst c D v rest w"
  let ?t = "\<lparr>handle = ?H, due = now ?w1 + D, callback = DebounceExpired c ?new ?old\<rparr>"
  from assms(4) have D: "D \<noteq> 0" by simp
  from assms(5) have da: "distinct_adj (u_value (cells w c) # v # map snd rest)" by (simp add: get_def)
  have r1: "run n w (Call_set c v # burst c rest) = Some ?w1"
    by (rule run_burst[OF assms(1-3) D da assms(6)])
  have tm: "timers ?w1 = ?keep @ [?t]" by (simp add: after_burst_def)
  have fresh: "\<forall>t\<in>set ?keep. handle t \<noteq> handle ?t" using assms(6) by auto
  have fnd: "\<And>ms. find (\<lambda>t. handle t = ?H) (timers (elapse ms ?w1)) = Some ?t"
    using find_last_timer[OF fresh] by (simp add: elapse_def tm)
  have early: "\<forall>early<D. fire_timer n (elapse early ?w1) ?H = None"
  proof (intro allI impI)
    fix early assume "early < D"
    then have "now (elapse early ?w1) < due ?t" by (simp add: elapse_def)
    with fnd show "fire_timer n (elapse early ?w1) ?H = None" by (rule fire_timer_early)
  qed
  let ?w1' = "elapse wait ?w1"
  have cb: "callback ?t = DebounceExpired c ?new ?old" by simp
  have du: "due ?t \<le> now ?w1'" using assms(9) by (simp add: elapse_def)
  have mt: "microtasks ?w1' = []" using assms(7) by (simp add: elapse_def after_burst_def)
  have sb: "subs ?w1' c = map Listener ls" using assms(8) by (simp add: elapse_def after_burst_def subs_def)
  from fire_debounce_timer[OF fnd cb du mt sb, of n]
  obtain w2 where f: "fire_timer n ?w1' ?H = Some w2"
    and d: "drain (length ls) n w2 =
             Some (upd_cell c (\<lambda>ob. ob\<lparr>u_history := u_history ob @ [?new]\<rparr>)
                    (?w1'\<lparr>timers := filter (\<lambda>t. handle t \<noteq> ?H) (timers ?w1'),
                       calls := calls ?w1' @ map (notification ?new ?old) ls\<rparr>))"
    by blast
  let ?w3 = "upd_cell c (\<lambda>ob. ob\<lparr>u_history := u_history ob @ [?new]\<rparr>)
                    (?w1'\<lparr>timers := filter (\<lambda>t. handle t \<noteq> ?H) (timers ?w1'),
                       calls := calls ?w1' @ map (notification ?new ?old) ls\<rparr>)"
  have r2: "run n ?w1 [Elapse wait, Fire_timer ?H, Run_microtasks (length ls)] = Some ?w3"
    using f d by simp
  have k: "filter (\<lambda>t. handle t \<noteq> ?H) ?keep = ?keep"
    using assms(6) by (intro filter_fresh) auto
  have "calls ?w1 = calls w" "microtasks ?w1 = []" "u_history (cells ?w1 c) = u_history (cells w c)"
    "get ?w1 c = ?new"
    using assms(7) by (simp_all add: after_burst_def get_def)
  moreover have "calls ?w3 = calls w @ map (notification ?new ?old) ls"
    "u_history (cells ?w3 c) = u_history (cells w c) @ [?new]" "get ?w3 c = ?new"
    "timers ?w3 = ?keep" "microtasks ?w3 = []"
    using assms(7) k by (simp_all add: after_burst_def elapse_def get_def)
  ultimately show ?thesis using r1 r2 tm early
    by (intro exI[of _ ?w1] exI[of _ ?w3]) (simp add: get_def)
qed

lemma debounce_pending_simps:
  "u_state (cells debounce_pending 0) = unsealed"
  "u_value (cells debounce_pending 0) = 1"
  "u_history (cells debounce_pending 0) = [0]"
  "microtasks debounce_pending = []"
  "timers debounce_pending = [\<lparr>handle = 1, due = 10, callback = DebounceExpired 0 1 0\<rparr>]"
  "now debounce_pending = 0"
  "next_cell debounce_pending = 1"
  "calls debounce_pending = [\<lparr>callee = 1, arg_newValue = 0, arg_oldValue = None\<rparr>]"
  by (simp_all add: debounce_pending_def debounced_cell_def eval_defs)

lemma layout_eq:
  "layout w1 = layout w \<longleftrightarrow>
     arrays w1 = arrays w \<and> closures w1 = closures w \<and> next_cell w1 = next_cell w \<and>
     next_array w1 = next_array w \<and> next_closure w1 = next_closure w \<and>
     (\<forall>c. u_subscribers (cells w1 c) = u_subscribers (cells w c) \<and>
          u_state (cells w1 c) = u_state (cells w c) \<and>
          u_options (cells w1 c) = u_options (cells w c))"
  by (auto simp: layout_def fun_eq_iff)


lemma throttle_gate_cases:
  assumes "throttle_gate c w = Some w1"
  obtains (opened) "w1 = w"
  | (armed) "w1 = upd_cell c (\<lambda>ob. ob\<lparr>u_throttleTimeout := Some (next_handle w)\<rparr>)
                    (snd (setTimeout (ThrottleExpired c) (the (throttle (u_options (cells w c)))) w))"
  using assms by (auto simp: throttle_gate_def split_beta Let_def split: if_splits)

lemma throttle_gate_layout: "throttle_gate c w = Some w1 \<Longrightarrow> layout w1 = layout w"
  by (erule throttle_gate_cases) (simp_all add: layout_eq)

lemma throttle_gate_rest:
  "throttle_gate c w = Some w1 \<Longrightarrow>
     microtasks w1 = microtasks w \<and> calls w1 = calls w \<and>
     (\<forall>x. u_value (cells w1 x) = u_value (cells w x) \<and> u_history (cells w1 x) = u_history (cells w x)) \<and>
     (\<forall>x. x \<noteq> c \<longrightarrow> cells w1 x = cells w x)"
  by (erule throttle_gate_cases) simp_all

lemma debounce_restart_layout: "layout (debounce_restart c new old w) = layout w"
  by (simp add: debounce_restart_def layout_eq split_beta Let_def split: option.splits)

lemma debounce_restart_rest:
  "microtasks (debounce_restart c new old w) = microtasks w \<and>
   calls (debounce_restart c new old w) = calls w \<and>
   (\<forall>x. u_value (cells (debounce_restart c new old w) x) = u_value (cells w x) \<and>
        u_history (cells (debounce_restart c new old w) x) = u_history (cells w x)) \<and>
   (\<forall>x. x \<noteq> c \<longrightarrow> cells (debounce_restart c new old w) x = cells w x)"
  by (simp add: debounce_restart_def split_beta Let_def split: option.splits)

lemma set_value_by_cases:
  assumes "set_value_by call w c v = Some (res, w')"
  obtains
    (rejected) "u_state (cells w c) = sealed" "res = Rejected SealedMutationError" "w' = w"
  | (silent) "u_state (cells w c) \<noteq> sealed" "res = Ok"
      "w' = upd_cell c (\<lambda>ob. ob\<lparr>u_value := v\<rparr>) w"
      "u_state (cells w c) = muted \<or> v = u_value (cells w c) \<or>
       (truthy (throttle (u_options (cells w c))) \<and> u_throttleTimeout (cells w c) \<noteq> None)"
  | (debounced) w1 where "u_state (cells w c) = unsealed" "res = Ok" "v \<noteq> u_value (cells w c)"
      "throttle_gate c (upd_cell c (\<lambda>ob. ob\<lparr>u_value := v\<rparr>) w) = Some w1"
      "truthy (debounce (u_options (cells w c)))"
      "w' = debounce_restart c v (u_value (cells w c)) w1"
  | (finished) w1 where "u_state (cells w c) = unsealed" "res = Ok" "v \<noteq> u_value (cells w c)"
      "throttle_gate c (upd_cell c (\<lambda>ob. ob\<lparr>u_value := v\<rparr>) w) = Some w1"
      "\<not> truthy (debounce (u_options (cells w c)))"
      "subs w c = []"
      "w' = upd_cell c (\<lambda>ob. ob\<lparr>u_history := u_history ob @ [v]\<rparr>) w1"
  | (called) w1 w2 where "u_state (cells w c) = unsealed" "res = Ok" "v \<noteq> u_value (cells w c)"
      "throttle_gate c (upd_cell c (\<lambda>ob. ob\<lparr>u_value := v\<rparr>) w) = Some w1"
      "\<not> truthy (debounce (u_options (cells w c)))"
      "subs w c \<noteq> []"
      "call w1 (subs w c ! 0) v (Some (u_value (cells w c))) = Some w2"
      "w' = w2\<lparr>microtasks := microtasks w2 @
               [ResumeNotify c (u_subscribers (cells w c)) (Suc 0) v (u_value (cells w c))]\<rparr>"
proof (cases "u_state (cells w c) = sealed")
  case True
  with assms show ?thesis by (intro rejected) (simp_all add: set_value_by_def)
next
  case ns: False
  let ?w0 = "upd_cell c (\<lambda>ob. ob\<lparr>u_value := v\<rparr>) w"
  let ?old = "u_value (cells w c)"
  from ns assms have r: "res = Ok" and n: "notify_by call ?w0 c v ?old = Some w'"
    by (auto simp: set_value_by_def)
  show ?thesis
  proof (cases "u_state (cells w c) = muted \<or> v = ?old \<or>
       (truthy (throttle (u_options (cells w c))) \<and> u_throttleTimeout (cells w c) \<noteq> None)")
    case True
    with n have "w' = ?w0"
      by (auto simp: notify_by_def throttle_gate_def split: if_splits)
    with ns r True show ?thesis by (intro silent)
  next
    case False
    with ns have st: "u_state (cells w c) = unsealed" by (cases "u_state (cells w c)") simp_all
    from False have ne: "v \<noteq> ?old" by simp
    from False have "throttle_gate c ?w0 \<noteq> None"
      by (auto simp: throttle_gate_def split_beta Let_def)
    then obtain w1 where g: "throttle_gate c ?w0 = Some w1" by auto
    from throttle_gate_layout[OF g] have su: "layout w1 = layout w" by (simp add: layout_eq)
    then have o1: "u_options (cells w1 c) = u_options (cells w c)"
      and u1: "u_subscribers (cells w1 c) = u_subscribers (cells w c)"
      and a1: "arrays w1 = arrays w"
      by (simp_all add: layout_eq)
    show ?thesis
    proof (cases "truthy (debounce (u_options (cells w c)))")
      case True
      with n st ne g o1 have "w' = debounce_restart c v ?old w1"
        by (simp add: notify_by_def)
      with st r ne g True show ?thesis by (intro debounced)
    next
      case nd: False
      with n st ne g o1 u1
      have l: "notify_loop_by call w1 c (u_subscribers (cells w c)) 0 v ?old = Some w'"
        by (simp add: notify_by_def)
      show ?thesis
      proof (cases "subs w c = []")
        case True
        with l a1 have "w' = upd_cell c (\<lambda>ob. ob\<lparr>u_history := u_history ob @ [v]\<rparr>) w1"
          by (simp add: notify_loop_by_def subs_def)
        with st r ne g nd True show ?thesis by (intro finished)
      next
        case False
        with l a1 obtain w2 where "call w1 (subs w c ! 0) v (Some ?old) = Some w2"
          and "w' = w2\<lparr>microtasks := microtasks w2 @
               [ResumeNotify c (u_subscribers (cells w c)) (Suc 0) v ?old]\<rparr>"
          by (auto simp: notify_loop_by_def subs_def split: option.splits)
        with st r ne g nd False show ?thesis by (intro called)
      qed
    qed
  qed
qed

lemma notify_loop_by_cases:
  assumes "notify_loop_by call w c a i new old = Some w'"
  obtains (finished) "length (arrays w a) \<le> i"
      "w' = upd_cell c (\<lambda>ob. ob\<lparr>u_history := u_history ob @ [new]\<rparr>) w"
  | (called) w2 where "i < length (arrays w a)"
      "call w (arrays w a ! i) new (Some old) = Some w2"
      "w' = w2\<lparr>microtasks := microtasks w2 @ [ResumeNotify c a (Suc i) new old]\<rparr>"
  using assms by (auto simp: notify_loop_by_def split: if_splits option.splits)

lemma run_microtask_cases:
  assumes "run_microtask n w = Some w'"
  obtains c a i new old rest where "microtasks w = ResumeNotify c a i new old # rest"
    "notify_loop_by (invoke n) (w\<lparr>microtasks := rest\<rparr>) c a i new old = Some w'"
  using assms
  by (auto simp: run_microtask_def notify_loop_def split: list.splits Microtask.splits)

lemma set_value_by_layout:
  assumes "\<And>w s new old w'. call w s new old = Some w' \<Longrightarrow> layout w' = layout w"
    and "set_value_by call w c v = Some (res, w')"
  shows "layout w' = layout w"
  using assms(2)
proof (cases rule: set_value_by_cases)
  case rejected
  then show ?thesis by simp
next
  case silent
  then show ?thesis by (simp add: layout_eq)
next
  case (debounced w1)
  from throttle_gate_layout[OF debounced(4)] debounced(6) show ?thesis
    by (simp add: debounce_restart_layout) (simp add: layout_eq)
next
  case (finished w1)
  from throttle_gate_layout[OF finished(4)] finished(7) show ?thesis
    by (simp add: layout_eq)
next
  case (called w1 w2)
  from throttle_gate_layout[OF called(4)] assms(1)[OF called(7)] called(8) show ?thesis
    by (simp add: layout_eq)
qed

lemma invoke_layout: "invoke n w s new old = Some w' \<Longrightarrow> layout w' = layout w"
proof (induction n w s new old arbitrary: w' rule: invoke.induct)
  case (1 n w l new old)
  then show ?case by (auto simp: layout_eq)
next
  case (2 w k new old)
  then show ?case by simp
next
  case (3 n w k new old)
  from "3.prems" obtain r where
    "set_value_by (invoke n) w (target (closures w k))
       (compute (closures w k) (map (\<lambda>d. u_value (cells w d)) (dependencies (closures w k)))) = Some (r, w')"
    by auto
  then show ?case by (rule set_value_by_layout[where call = "invoke n", rotated]) (rule "3.IH")
qed

lemma set_value_layout: "set_value n w c v = Some (res, w') \<Longrightarrow> layout w' = layout w"
  unfolding set_value_def by (erule set_value_by_layout[rotated]) (rule invoke_layout)

lemma notify_loop_by_layout:
  "notify_loop_by (invoke n) w c a i new old = Some w' \<Longrightarrow> layout w' = layout w"
  by (erule notify_loop_by_cases) (auto simp: layout_eq dest!: invoke_layout)

lemma run_microtask_layout: "run_microtask n w = Some w' \<Longrightarrow> layout w' = layout w"
  by (erule run_microtask_cases) (auto dest!: notify_loop_by_layout simp: layout_eq)

lemma drain_layout: "drain k n w = Some w' \<Longrightarrow> layout w' = layout w"
proof (induction k arbitrary: w)
  case 0
  then show ?case by (simp split: if_splits)
next
  case (Suc k)
  show ?case
  proof (cases "microtasks w = []")
    case True
    with Suc.prems show ?thesis by simp
  next
    case False
    with Suc.prems obtain w1 where r: "run_microtask n w = Some w1" and d: "drain k n w1 = Some w'"
      by (auto split: option.splits)
    from run_microtask_layout[OF r] Suc.IH[OF d] show ?thesis by simp
  qed
qed

lemma fire_timer_layout: "fire_timer n w h = Some w' \<Longrightarrow> layout w' = layout w"
  by (auto simp: fire_timer_def Let_def notify_loop_def
      split: option.splits if_splits TimerCallback.splits
      dest!: notify_loop_by_layout simp: layout_eq)

lemma layout_emptied: "layout w' = layout w \<Longrightarrow> emptied c w' = emptied c w"
  by (simp add: layout_eq emptied_def allocated_def subs_def)

lemma seal_emptied: "allocated w \<Longrightarrow> c < next_cell w \<Longrightarrow> emptied c (snd (seal w c))"
  by (auto simp: emptied_def allocated_def seal_def Let_def subs_def less_Suc_eq)

lemma create_emptied: "emptied c w \<Longrightarrow> emptied c (snd (create v opts w))"
  by (auto simp: emptied_def allocated_def create_def subs_def less_Suc_eq)

lemma unsubscribe_emptied: "emptied c w \<Longrightarrow> fst u < next_cell w \<Longrightarrow> emptied c (unsubscribe u w)"
  by (auto simp: emptied_def allocated_def unsubscribe_def Let_def subs_def less_Suc_eq)

lemma seal_other_emptied: "emptied c w \<Longrightarrow> c' < next_cell w \<Longrightarrow> emptied c (snd (seal w c'))"
  by (auto simp: emptied_def allocated_def seal_def Let_def subs_def less_Suc_eq)

lemma mute_emptied: "emptied c w \<Longrightarrow> emptied c (snd (mute w c'))"
  by (auto simp: emptied_def allocated_def mute_def subs_def)

lemma unmute_emptied: "emptied c w \<Longrightarrow> emptied c (snd (unmute w c'))"
  by (auto simp: emptied_def allocated_def unmute_def subs_def)

lemma subscribe_emptied:
  assumes "emptied c w" and "c' < next_cell w" and "c' \<noteq> c"
    and "subscribe n w c' s = Some (u, w')"
  shows "emptied c w'"
proof -
  let ?w1 = "w\<lparr>arrays := (arrays w)(u_subscribers (cells w c') := arrays w (u_subscribers (cells w c')) @ [s])\<rparr>"
  from assms(4) obtain new old where "invoke n ?w1 s new old = Some w'"
    by (auto simp: subscribe_def Let_def)
  from invoke_layout[OF this] have "emptied c w' = emptied c ?w1" by (rule layout_emptied)
  moreover from assms(1-3) have "emptied c ?w1"
    by (auto simp: emptied_def allocated_def subs_def)
  ultimately show ?thesis by simp
qed

lemma bind_subscribe_emptied:
  "bind_subscribe n w t deps computeFn ds = Some (us, w') \<Longrightarrow> emptied c w \<Longrightarrow>
   \<forall>d\<in>set ds. d < next_cell w \<and> d \<noteq> c \<Longrightarrow> emptied c w' \<and> next_cell w' = next_cell w"
proof (induction ds arbitrary: w us)
  case Nil
  then show ?case by simp
next
  case (Cons d ds)
  let ?w1 = "w\<lparr>closures := (closures w)(next_closure w := \<lparr>target = t, dependencies = deps, compute = computeFn\<rparr>),
                 next_closure := Suc (next_closure w)\<rparr>"
  from Cons.prems(1) obtain u w2 us' where
    s: "subscribe n ?w1 d (Recompute (next_closure w)) = Some (u, w2)" and
    r: "bind_subscribe n w2 t deps computeFn ds = Some (us', w')"
    by (auto simp: Let_def split: option.splits)
  from Cons.prems(2) have e1: "emptied c ?w1" by (simp add: emptied_def allocated_def subs_def)
  from Cons.prems(3) have d: "d < next_cell ?w1" "d \<noteq> c" by simp_all
  from subscribe_emptied[OF e1 d s] have e2: "emptied c w2" .
  from subscribe_later[OF s, of c] have "next_cell ?w1 \<le> next_cell w2" by (simp add: later_def)
  moreover from s obtain new old where
    "invoke n (?w1\<lparr>arrays := (arrays ?w1)(u_subscribers (cells ?w1 d) := arrays ?w1 (u_subscribers (cells ?w1 d)) @ [Recompute (next_closure w)])\<rparr>)
       (Recompute (next_closure w)) new old = Some w2"
    by (auto simp: subscribe_def Let_def)
  from invoke_layout[OF this] have n2: "next_cell w2 = next_cell w" by (simp add: layout_eq)
  with Cons.prems(3) have "\<forall>d\<in>set ds. d < next_cell w2 \<and> d \<noteq> c" by simp
  from Cons.IH[OF r e2 this] n2 show ?case by simp
qed

lemma bind_emptied:
  assumes "bind n w t deps computeFn = Some (us, w')" and "emptied c w"
    and "\<forall>d\<in>set deps. d < next_cell w \<and> d \<noteq> c"
  shows "emptied c w'"
proof -
  from assms(1) obtain w1 r where b: "bind_subscribe n w t deps computeFn deps = Some (us, w1)"
    and s: "set_value n w1 t (computeFn (map (\<lambda>d. u_value (cells w1 d)) deps)) = Some (r, w')"
    by (auto simp: bind_def split: option.splits)
  from bind_subscribe_emptied[OF b assms(2,3)] have "emptied c w1" by simp
  with layout_emptied[OF set_value_layout[OF s]] show ?thesis by simp
qed

lemma subscribe_cells: "subscribe n w c s = Some (u, w') \<Longrightarrow> next_cell w' = next_cell w"
  by (auto simp: subscribe_def Let_def dest!: invoke_layout simp: layout_eq)

lemma bind_subscribe_cells:
  "bind_subscribe n w t deps computeFn ds = Some (us, w') \<Longrightarrow> next_cell w' = next_cell w"
proof (induction ds arbitrary: w us)
  case Nil
  then show ?case by simp
next
  case (Cons d ds)
  let ?w1 = "w\<lparr>closures := (closures w)(next_closure w := \<lparr>target = t, dependencies = deps, compute = computeFn\<rparr>),
                 next_closure := Suc (next_closure w)\<rparr>"
  from Cons.prems(1) obtain u w2 us' where
    s: "subscribe n ?w1 d (Recompute (next_closure w)) = Some (u, w2)" and
    r: "bind_subscribe n w2 t deps computeFn ds = Some (us', w')"
    by (auto simp: Let_def split: option.splits)
  from subscribe_cells[OF s] Cons.IH[OF r] show ?case by simp
qed

lemma bind_cells: "bind n w t deps computeFn = Some (us, w') \<Longrightarrow> next_cell w' = next_cell w"
  by (auto simp: bind_def split: option.splits dest!: bind_subscribe_cells set_value_layout simp: layout_eq)

lemma step_cells: "step n w e = Some w' \<Longrightarrow> next_cell w' = next_cell w + creates e"
  by (cases e)
    (auto simp: create_def unsubscribe_def seal_def mute_def unmute_def elapse_def update_def Let_def
      dest!: set_value_layout run_microtask_layout drain_layout fire_timer_layout
        subscribe_cells bind_cells
      simp: layout_eq)

lemma step_emptied:
  assumes "emptied c w" and "in_scope (next_cell w) e" and "c \<notin> set (subscribes_to e)"
    and "step n w e = Some w'"
  shows "emptied c w'"
proof (cases e)
  case (Call_create v opts)
  with assms show ?thesis by (auto simp: create_emptied)
next
  case (Call_set c' v)
  with assms show ?thesis by (auto dest!: set_value_layout layout_emptied[where c = c])
next
  case (Call_update c' f)
  with assms show ?thesis by (auto simp: update_def dest!: set_value_layout layout_emptied[where c = c])
next
  case (Call_subscribe c' s)
  with assms show ?thesis by (auto dest: subscribe_emptied)
next
  case (Call_unsubscribe u)
  with assms show ?thesis by (auto simp: unsubscribe_emptied)
next
  case (Call_seal c')
  with assms show ?thesis by (auto simp: seal_other_emptied)
next
  case (Call_mute c')
  with assms show ?thesis by (auto simp: mute_emptied)
next
  case (Call_unmute c')
  with assms show ?thesis by (auto simp: unmute_emptied)
next
  case (Call_bind t deps f)
  with assms show ?thesis by (auto dest!: bind_emptied[where c = c])
next
  case Run_microtask
  with assms show ?thesis by (auto dest!: run_microtask_layout layout_emptied[where c = c])
next
  case (Run_microtasks k)
  with assms show ?thesis by (auto dest!: drain_layout layout_emptied[where c = c])
next
  case (Fire_timer h)
  with assms show ?thesis by (auto dest!: fire_timer_layout layout_emptied[where c = c])
next
  case (Elapse ms)
  with assms show ?thesis by (auto simp: elapse_def emptied_def allocated_def subs_def)
qed

lemma run_emptied:
  "emptied c w \<Longrightarrow> scoped (next_cell w) es \<Longrightarrow> \<forall>e\<in>set es. c \<notin> set (subscribes_to e) \<Longrightarrow>
   run n w es = Some w' \<Longrightarrow> emptied c w'"
proof (induction es arbitrary: w)
  case Nil
  then show ?case by simp
next
  case (Cons e es)
  from Cons.prems(4) obtain w1 where s: "step n w e = Some w1" and r: "run n w1 es = Some w'"
    by (auto split: option.splits)
  from Cons.prems(2,3) have i: "in_scope (next_cell w) e" "c \<notin> set (subscribes_to e)" by simp_all
  from step_emptied[OF Cons.prems(1) i s] have e1: "emptied c w1" .
  from step_cells[OF s] Cons.prems(2) have "scoped (next_cell w1) es" by simp
  from Cons.IH[OF e1 this _ r] Cons.prems(3) show ?case by simp
qed

lemma quiet_step:
  assumes "quiet l w" and "layout w' = layout w"
    and "\<forall>m\<in>set (microtasks w'). m \<in> set (microtasks w) \<or>
           (Listener l \<notin> set (arrays w (loop_array m)) \<and>
            (\<forall>k. Recompute k \<in> set (arrays w (loop_array m)) \<longrightarrow> target (closures w k) < next_cell w))"
    and "\<forall>t\<in>set (timers w'). t \<in> set (timers w) \<or> timer_cell (callback t) < next_cell w"
  shows "quiet l w'"
proof -
  from assms(2) have a: "arrays w' = arrays w" "closures w' = closures w" "next_cell w' = next_cell w"
    and s: "\<And>c. subs w' c = subs w c"
    by (simp_all add: layout_eq subs_def)
  from assms(1) have d: "detached l w" and g: "grounded w" by (simp_all add: quiet_def)
  have "detached l w'"
    unfolding detached_def a s using d assms(3) by (auto simp: detached_def)
  moreover have "grounded w'"
    unfolding grounded_def a s using g assms(3,4) by (fastforce simp: grounded_def)
  ultimately show ?thesis by (simp add: quiet_def)
qed

lemma quiet_subs:
  "quiet l w \<Longrightarrow> c < next_cell w \<Longrightarrow> s \<in> set (subs w c) \<Longrightarrow>
   s \<noteq> Listener l \<and> (\<forall>k. s = Recompute k \<longrightarrow> target (closures w k) < next_cell w)"
  by (auto simp: quiet_def detached_def grounded_def)

lemma quiet_loop:
  "quiet l w \<Longrightarrow> m \<in> set (microtasks w) \<Longrightarrow> s \<in> set (arrays w (loop_array m)) \<Longrightarrow>
   s \<noteq> Listener l \<and> (\<forall>k. s = Recompute k \<longrightarrow> target (closures w k) < next_cell w)"
  by (auto simp: quiet_def detached_def grounded_def)

lemma throttle_gate_timers:
  "throttle_gate c w = Some w1 \<Longrightarrow>
   \<forall>t\<in>set (timers w1). t \<in> set (timers w) \<or> timer_cell (callback t) = c"
  by (erule throttle_gate_cases) auto

lemma debounce_restart_timers:
  "\<forall>t\<in>set (timers (debounce_restart c new old w)). t \<in> set (timers w) \<or> timer_cell (callback t) = c"
  by (auto simp: debounce_restart_def split_beta Let_def split: option.splits)

lemma set_value_by_quiet:
  assumes call: "\<And>w s new old w'. call w s new old = Some w' \<Longrightarrow> quiet l w \<Longrightarrow> s \<noteq> Listener l \<Longrightarrow>
        (\<forall>k. s = Recompute k \<longrightarrow> target (closures w k) < next_cell w) \<Longrightarrow>
        layout w' = layout w \<and> quiet l w' \<and> calls_of l w' = calls_of l w"
    and sv: "set_value_by call w c v = Some (res, w')"
    and q: "quiet l w" and c: "c < next_cell w"
  shows "layout w' = layout w \<and> quiet l w' \<and> calls_of l w' = calls_of l w"
  using sv
proof (cases rule: set_value_by_cases)
  case rejected
  with q show ?thesis by simp
next
  case silent
  have "layout w' = layout w" using silent(3) by (simp add: layout_eq)
  moreover from quiet_step[OF q this] silent(3) have "quiet l w'" by simp
  ultimately show ?thesis using silent(3) by (simp add: calls_of_def)
next
  case (debounced w1)
  let ?w0 = "upd_cell c (\<lambda>ob. ob\<lparr>u_value := v\<rparr>) w"
  from throttle_gate_layout[OF debounced(4)] have l1: "layout w1 = layout w" by (simp add: layout_eq)
  with debounced(6) have l: "layout w' = layout w" by (simp add: debounce_restart_layout)
  from throttle_gate_rest[OF debounced(4)] have r1: "microtasks w1 = microtasks w" "calls w1 = calls w"
    by simp_all
  from debounce_restart_rest[of c v "u_value (cells w c)" w1] debounced(6) r1
  have r: "microtasks w' = microtasks w" "calls w' = calls w" by simp_all
  have "\<forall>t\<in>set (timers w'). t \<in> set (timers w) \<or> timer_cell (callback t) < next_cell w"
    using throttle_gate_timers[OF debounced(4)] debounce_restart_timers[of c v "u_value (cells w c)" w1]
      debounced(6) c by fastforce
  from quiet_step[OF q l _ this] r have "quiet l w'" by simp
  with l r show ?thesis by (simp add: calls_of_def)
next
  case (finished w1)
  from throttle_gate_layout[OF finished(4)] have l1: "layout w1 = layout w" by (simp add: layout_eq)
  with finished(7) have l: "layout w' = layout w" by (simp add: layout_eq)
  from throttle_gate_rest[OF finished(4)] finished(7)
  have r: "microtasks w' = microtasks w" "calls w' = calls w" by simp_all
  have "\<forall>t\<in>set (timers w'). t \<in> set (timers w) \<or> timer_cell (callback t) < next_cell w"
    using throttle_gate_timers[OF finished(4)] finished(7) c by fastforce
  from quiet_step[OF q l _ this] r have "quiet l w'" by simp
  with l r show ?thesis by (simp add: calls_of_def)
next
  case (called w1 w2)
  from throttle_gate_layout[OF called(4)] have l1: "layout w1 = layout w" by (simp add: layout_eq)
  from throttle_gate_rest[OF called(4)]
  have r1: "microtasks w1 = microtasks w" "calls w1 = calls w" by simp_all
  have "\<forall>t\<in>set (timers w1). t \<in> set (timers w) \<or> timer_cell (callback t) < next_cell w"
    using throttle_gate_timers[OF called(4)] c by fastforce
  from quiet_step[OF q l1 _ this] r1 have q1: "quiet l w1" by simp
  from called(6) have "subs w c ! 0 \<in> set (subs w c)" by simp
  from quiet_subs[OF q c this] l1
  have s: "subs w c ! 0 \<noteq> Listener l"
    "\<forall>k. subs w c ! 0 = Recompute k \<longrightarrow> target (closures w1 k) < next_cell w1"
    by (simp_all add: layout_eq)
  from call[OF called(7) q1 s]
  have l2: "layout w2 = layout w1" and q2: "quiet l w2" and c2: "calls_of l w2 = calls_of l w1"
    by simp_all
  from l2 l1 called(8) have l: "layout w' = layout w" by (simp add: layout_eq)
  from l2 l1 have l2': "layout w' = layout w2" using l by simp
  have "\<forall>m\<in>set (microtasks w'). m \<in> set (microtasks w2) \<or>
           (Listener l \<notin> set (arrays w2 (loop_array m)) \<and>
            (\<forall>k. Recompute k \<in> set (arrays w2 (loop_array m)) \<longrightarrow> target (closures w2 k) < next_cell w2))"
    using called(8) quiet_subs[OF q c] l2 l1 by (auto simp: layout_eq subs_def)
  from quiet_step[OF q2 l2' this] called(8) have "quiet l w'" by simp
  moreover from c2 r1 called(8) have "calls_of l w' = calls_of l w" by (simp add: calls_of_def)
  ultimately show ?thesis using l by simp
qed

lemma invoke_quiet:
  "invoke n w s new old = Some w' \<Longrightarrow> quiet l w \<Longrightarrow> s \<noteq> Listener l \<Longrightarrow>
   (\<forall>k. s = Recompute k \<longrightarrow> target (closures w k) < next_cell w) \<Longrightarrow>
   layout w' = layout w \<and> quiet l w' \<and> calls_of l w' = calls_of l w"
proof (induction n w s new old arbitrary: w' rule: invoke.induct)
  case (1 n w l' new old)
  let ?w' = "w\<lparr>calls := calls w @ [\<lparr>callee = l', arg_newValue = new, arg_oldValue = old\<rparr>]\<rparr>"
  from "1.prems" have w': "w' = ?w'" and ne: "l' \<noteq> l" by auto
  have l: "layout ?w' = layout w" by (simp add: layout_eq)
  from quiet_step[OF "1.prems"(2) l] have "quiet l ?w'" by simp
  with l ne w' show ?case by (simp add: calls_of_def)
next
  case (2 w k new old)
  then show ?case by simp
next
  case (3 n w k new old)
  from "3.prems"(1) obtain r where
    sv: "set_value_by (invoke n) w (target (closures w k))
       (compute (closures w k) (map (\<lambda>d. u_value (cells w d)) (dependencies (closures w k)))) = Some (r, w')"
    by auto
  from "3.prems"(4) have c: "target (closures w k) < next_cell w" by simp
  show ?case
    by (rule set_value_by_quiet[where call = "invoke n", OF _ sv "3.prems"(2) c]) (rule "3.IH")
qed

lemma set_value_quiet:
  assumes "set_value n w c v = Some (res, w')" and "quiet l w" and "c < next_cell w"
  shows "quiet l w' \<and> calls_of l w' = calls_of l w"
proof -
  from assms(1) have sv: "set_value_by (invoke n) w c v = Some (res, w')" by (simp add: set_value_def)
  have "layout w' = layout w \<and> quiet l w' \<and> calls_of l w' = calls_of l w"
    by (rule set_value_by_quiet[where call = "invoke n", OF _ sv assms(2,3)]) (rule invoke_quiet)
  then show ?thesis by simp
qed

lemma notify_loop_by_quiet:
  assumes "notify_loop_by (invoke n) w c a i new old = Some w'" and "quiet l w"
    and "\<forall>s\<in>set (arrays w a). s \<noteq> Listener l \<and> (\<forall>k. s = Recompute k \<longrightarrow> target (closures w k) < next_cell w)"
  shows "quiet l w' \<and> calls_of l w' = calls_of l w"
  using assms(1)
proof (cases rule: notify_loop_by_cases)
  case finished
  have l: "layout w' = layout w" using finished(2) by (simp add: layout_eq)
  from quiet_step[OF assms(2) l] finished(2) show ?thesis by (simp add: calls_of_def)
next
  case (called w2)
  from called(1) have "arrays w a ! i \<in> set (arrays w a)" by simp
  with assms(3) have s: "arrays w a ! i \<noteq> Listener l"
    "\<forall>k. arrays w a ! i = Recompute k \<longrightarrow> target (closures w k) < next_cell w"
    by blast+
  from invoke_quiet[OF called(2) assms(2) s]
  have l2: "layout w2 = layout w" and q2: "quiet l w2" and c2: "calls_of l w2 = calls_of l w"
    by simp_all
  from called(3) have l: "layout w' = layout w2" by (simp add: layout_eq)
  have "\<forall>m\<in>set (microtasks w'). m \<in> set (microtasks w2) \<or>
           (Listener l \<notin> set (arrays w2 (loop_array m)) \<and>
            (\<forall>k. Recompute k \<in> set (arrays w2 (loop_array m)) \<longrightarrow> target (closures w2 k) < next_cell w2))"
    using called(3) assms(3) l2 by (auto simp: layout_eq)
  from quiet_step[OF q2 l this] called(3) have "quiet l w'" by simp
  with c2 called(3) show ?thesis by (simp add: calls_of_def)
qed

lemma run_microtask_quiet:
  assumes "run_microtask n w = Some w'" and "quiet l w"
  shows "quiet l w' \<and> calls_of l w' = calls_of l w"
  using assms(1)
proof (cases rule: run_microtask_cases)
  case (1 c a i new old rest)
  let ?w0 = "w\<lparr>microtasks := rest\<rparr>"
  have l: "layout ?w0 = layout w" by (simp add: layout_eq)
  from quiet_step[OF assms(2) l] 1(1) have q0: "quiet l ?w0" by simp
  have "ResumeNotify c a i new old \<in> set (microtasks w)" using 1(1) by simp
  from quiet_loop[OF assms(2) this]
  have "\<forall>s\<in>set (arrays ?w0 a). s \<noteq> Listener l \<and>
          (\<forall>k. s = Recompute k \<longrightarrow> target (closures ?w0 k) < next_cell ?w0)"
    by simp
  from notify_loop_by_quiet[OF 1(2) q0 this] show ?thesis by (simp add: calls_of_def)
qed

lemma drain_quiet:
  "drain k n w = Some w' \<Longrightarrow> quiet l w \<Longrightarrow> quiet l w' \<and> calls_of l w' = calls_of l w"
proof (induction k arbitrary: w)
  case 0
  then show ?case by (simp split: if_splits)
next
  case (Suc k)
  show ?case
  proof (cases "microtasks w = []")
    case True
    with Suc.prems show ?thesis by simp
  next
    case False
    with Suc.prems obtain w1 where r: "run_microtask n w = Some w1" and d: "drain k n w1 = Some w'"
      by (auto split: option.splits)
    from run_microtask_quiet[OF r Suc.prems(2)] Suc.IH[OF d] show ?thesis by simp
  qed
qed

lemma fire_timer_quiet:
  assumes "fire_timer n w h = Some w'" and "quiet l w"
  shows "quiet l w' \<and> calls_of l w' = calls_of l w"
proof -
  from assms(1) obtain t where f: "find (\<lambda>t. handle t = h) (timers w) = Some t"
    by (auto simp: fire_timer_def split: option.splits)
  then have t: "t \<in> set (timers w)" by (auto simp: find_Some_iff)
  with assms(2) have tc: "timer_cell (callback t) < next_cell w" by (simp add: quiet_def grounded_def)
  let ?w1 = "clearTimeout h w"
  have l1: "layout ?w1 = layout w" by (simp add: layout_eq)
  from quiet_step[OF assms(2) l1] have q1: "quiet l ?w1" by simp
  show ?thesis
  proof (cases "callback t")
    case (ThrottleExpired c)
    with assms(1) f have w': "w' = upd_cell c (\<lambda>ob. ob\<lparr>u_throttleTimeout := None\<rparr>)
                            (case u_throttleTimeout (cells ?w1 c) of None \<Rightarrow> ?w1 | Some h' \<Rightarrow> clearTimeout h' ?w1)"
      by (auto simp: fire_timer_def Let_def split: if_splits)
    have l: "layout w' = layout w" unfolding w' by (simp add: layout_eq split: option.splits)
    have m: "microtasks w' = microtasks w" "calls w' = calls w"
      unfolding w' by (simp_all split: option.splits)
    have "\<forall>t\<in>set (timers w'). t \<in> set (timers w) \<or> timer_cell (callback t) < next_cell w"
      unfolding w' by (auto split: option.splits)
    from quiet_step[OF assms(2) l _ this] m show ?thesis by (simp add: calls_of_def)
  next
    case (DebounceExpired c new old)
    with assms(1) f have n: "notify_loop_by (invoke n) ?w1 c (u_subscribers (cells ?w1 c)) 0 new old = Some w'"
      by (auto simp: fire_timer_def Let_def notify_loop_def split: if_splits)
    from tc DebounceExpired have c: "c < next_cell w" by simp
    have "\<forall>s\<in>set (arrays ?w1 (u_subscribers (cells ?w1 c))). s \<noteq> Listener l \<and>
          (\<forall>k. s = Recompute k \<longrightarrow> target (closures ?w1 k) < next_cell ?w1)"
      using quiet_subs[OF assms(2) c] by (simp add: subs_def)
    from notify_loop_by_quiet[OF n q1 this] show ?thesis by (simp add: calls_of_def)
  qed
qed

lemma create_quiet: "quiet l w \<Longrightarrow> quiet l (snd (create v opts w))"
  unfolding quiet_def detached_def grounded_def
  by (auto simp: create_def subs_def less_Suc_eq)

lemma unsubscribe_quiet: "quiet l w \<Longrightarrow> fst u < next_cell w \<Longrightarrow> quiet l (unsubscribe u w)"
  unfolding quiet_def detached_def grounded_def
  by (auto simp: unsubscribe_def Let_def subs_def)

lemma seal_quiet: "quiet l w \<Longrightarrow> quiet l (snd (seal w c))"
  unfolding quiet_def detached_def grounded_def
  by (auto simp: seal_def Let_def subs_def)

lemma mute_quiet: "quiet l w \<Longrightarrow> quiet l (snd (mute w c))"
  unfolding quiet_def detached_def grounded_def
  by (simp add: mute_def subs_def)

lemma unmute_quiet: "quiet l w \<Longrightarrow> quiet l (snd (unmute w c))"
  unfolding quiet_def detached_def grounded_def
  by (simp add: unmute_def subs_def)

lemma push_quiet:
  assumes "quiet l w" and "s \<noteq> Listener l"
    and "\<forall>k. s = Recompute k \<longrightarrow> target (closures w k) < next_cell w"
  shows "quiet l (w\<lparr>arrays := (arrays w)(a := arrays w a @ [s])\<rparr>)"
  using assms unfolding quiet_def detached_def grounded_def
  by (auto simp: subs_def)

lemma subscribe_quiet:
  assumes "subscribe n w c s = Some (u, w')" and "quiet l w" and "s \<noteq> Listener l"
    and "\<forall>k. s = Recompute k \<longrightarrow> target (closures w k) < next_cell w"
  shows "quiet l w' \<and> calls_of l w' = calls_of l w"
proof -
  let ?w1 = "w\<lparr>arrays := (arrays w)(u_subscribers (cells w c) := arrays w (u_subscribers (cells w c)) @ [s])\<rparr>"
  from assms(1) obtain new old where i: "invoke n ?w1 s new old = Some w'"
    by (auto simp: subscribe_def Let_def)
  from push_quiet[OF assms(2-4)] have q1: "quiet l ?w1" .
  from assms(4) have "\<forall>k. s = Recompute k \<longrightarrow> target (closures ?w1 k) < next_cell ?w1" by simp
  from invoke_quiet[OF i q1 assms(3) this] show ?thesis by (simp add: calls_of_def)
qed

lemma closure_quiet:
  assumes "quiet l w" and "t < next_cell w"
  shows "quiet l (w\<lparr>closures := (closures w)(k := \<lparr>target = t, dependencies = deps, compute = f\<rparr>),
                    next_closure := j\<rparr>)"
  using assms unfolding quiet_def detached_def grounded_def
  by (auto simp: subs_def)

lemma bind_subscribe_quiet:
  "bind_subscribe n w t deps computeFn ds = Some (us, w') \<Longrightarrow> quiet l w \<Longrightarrow> t < next_cell w \<Longrightarrow>
   quiet l w' \<and> calls_of l w' = calls_of l w"
proof (induction ds arbitrary: w us)
  case Nil
  then show ?case by simp
next
  case (Cons d ds)
  let ?w1 = "w\<lparr>closures := (closures w)(next_closure w := \<lparr>target = t, dependencies = deps, compute = computeFn\<rparr>),
                 next_closure := Suc (next_closure w)\<rparr>"
  from Cons.prems(1) obtain u w2 us' where
    s: "subscribe n ?w1 d (Recompute (next_closure w)) = Some (u, w2)" and
    r: "bind_subscribe n w2 t deps computeFn ds = Some (us', w')"
    by (auto simp: Let_def split: option.splits)
  from closure_quiet[OF Cons.prems(2,3)] have q1: "quiet l ?w1" .
  have "\<forall>k. Recompute (next_closure w) = Recompute k \<longrightarrow> target (closures ?w1 k) < next_cell ?w1"
    using Cons.prems(3) by simp
  from subscribe_quiet[OF s q1 _ this]
  have q2: "quiet l w2" and c2: "calls_of l w2 = calls_of l w" by (simp_all add: calls_of_def)
  from subscribe_cells[OF s] Cons.prems(3) have "t < next_cell w2" by simp
  from Cons.IH[OF r q2 this] c2 show ?case by simp
qed

lemma bind_quiet:
  assumes "bind n w t deps computeFn = Some (us, w')" and "quiet l w" and "t < next_cell w"
  shows "quiet l w' \<and> calls_of l w' = calls_of l w"
proof -
  from assms(1) obtain w1 r where b: "bind_subscribe n w t deps computeFn deps = Some (us, w1)"
    and s: "set_value n w1 t (computeFn (map (\<lambda>d. u_value (cells w1 d)) deps)) = Some (r, w')"
    by (auto simp: bind_def split: option.splits)
  from bind_subscribe_quiet[OF b assms(2,3)] have q1: "quiet l w1" and c1: "calls_of l w1 = calls_of l w"
    by simp_all
  from bind_subscribe_cells[OF b] assms(3) have "t < next_cell w1" by simp
  from set_value_quiet[OF s q1 this] c1 show ?thesis by simp
qed

lemma step_quiet:
  assumes "quiet l w" and "in_scope (next_cell w) e" and "Listener l \<notin> set (registers e)"
    and "step n w e = Some w'"
  shows "quiet l w' \<and> calls_of l w' = calls_of l w"
proof (cases e)
  case (Call_create v opts)
  with assms show ?thesis by (auto simp: create_quiet) (simp add: calls_of_def create_def)
next
  case (Call_set c v)
  with assms show ?thesis by (auto dest!: set_value_quiet[where l = l])
next
  case (Call_update c f)
  with assms show ?thesis by (auto simp: update_def dest!: set_value_quiet[where l = l])
next
  case (Call_subscribe c s)
  with assms obtain u where s: "subscribe n w c s = Some (u, w')" and ne: "s \<noteq> Listener l"
    and li: "is_listener s"
    by auto
  from li have "\<forall>k. s = Recompute k \<longrightarrow> target (closures w k) < next_cell w" by auto
  from subscribe_quiet[OF s assms(1) ne this] show ?thesis .
next
  case (Call_unsubscribe u)
  with assms show ?thesis by (auto simp: unsubscribe_quiet) (simp add: calls_of_def unsubscribe_def Let_def)
next
  case (Call_seal c)
  with assms show ?thesis by (auto simp: seal_quiet) (simp add: calls_of_def seal_def Let_def)
next
  case (Call_mute c)
  with assms show ?thesis by (auto simp: mute_quiet) (simp add: calls_of_def mute_def)
next
  case (Call_unmute c)
  with assms show ?thesis by (auto simp: unmute_quiet) (simp add: calls_of_def unmute_def)
next
  case (Call_bind t deps f)
  with assms show ?thesis by (auto dest!: bind_quiet[where l = l])
next
  case Run_microtask
  with assms show ?thesis by (auto dest!: run_microtask_quiet[where l = l])
next
  case (Run_microtasks k)
  with assms show ?thesis by (auto dest!: drain_quiet[where l = l])
next
  case (Fire_timer h)
  with assms show ?thesis by (auto dest!: fire_timer_quiet[where l = l])
next
  case (Elapse ms)
  with assms show ?thesis
    by (auto simp: elapse_def quiet_def detached_def grounded_def subs_def calls_of_def)
qed

lemma run_quiet:
  "quiet l w \<Longrightarrow> scoped (next_cell w) es \<Longrightarrow> \<forall>e\<in>set es. Listener l \<notin> set (registers e) \<Longrightarrow>
   run n w es = Some w' \<Longrightarrow> quiet l w' \<and> calls_of l w' = calls_of l w"
proof (induction es arbitrary: w)
  case Nil
  then show ?case by simp
next
  case (Cons e es)
  from Cons.prems(4) obtain w1 where s: "step n w e = Some w1" and r: "run n w1 es = Some w'"
    by (auto split: option.splits)
  from Cons.prems(2,3) have i: "in_scope (next_cell w) e" "Listener l \<notin> set (registers e)" by simp_all
  from step_quiet[OF Cons.prems(1) i s] have q1: "quiet l w1" and c1: "calls_of l w1 = calls_of l w"
    by simp_all
  from step_cells[OF s] Cons.prems(2) have "scoped (next_cell w1) es" by simp
  from Cons.IH[OF q1 this _ r] Cons.prems(3) c1 show ?case by simp
qed

lemma unsubscribe_detaches:
  assumes "grounded w" and "c < next_cell w"
    and "\<forall>c'<next_cell w. c' \<noteq> c \<longrightarrow> Listener l \<notin> set (subs w c')"
    and "\<forall>m\<in>set (microtasks w). Listener l \<notin> set (arrays w (loop_array m))"
  shows "quiet l (unsubscribe (c, Listener l) w)"
  using assms unfolding quiet_def detached_def grounded_def
  by (auto simp: unsubscribe_def Let_def subs_def)

lemma listeners_121_scope:
  "next_cell listeners_121 = 1" "grounded listeners_121"
  "\<exists>w'. run 0 (unsubscribe (0, Listener 1) listeners_121)
          [Call_set 0 7, Run_microtasks (Suc 0), Call_subscribe 0 (Listener 3), Call_set 0 8,
           Run_microtasks (Suc (Suc 0))] = Some w'"
  by (simp_all add: listeners_121_def grounded_def eval_defs)

subsection \<open>Bindings\<close>




















































section \<open>The claims\<close>

text \<open>
  Claim C1 as stated says that \<^verbatim>\<open>set\<close>, \<^verbatim>\<open>mute\<close> and \<^verbatim>\<open>unmute\<close> on a sealed cell leave its
  empty subscriber list unchanged. The list need not be empty: \<^verbatim>\<open>subscribe\<close> has no check for
  a sealed cell (lines 85-88). A cell is created with 4 and sealed, and the listener 1 subscribes
  to it: the cell is sealed, its subscriber list is \<open>[Listener 1]\<close>, and \<^verbatim>\<open>set(9)\<close> is rejected.
\<close>

theorem seal_then_subscribe_counterexample:
  "map_option (\<lambda>w'. (u_state (cells w' 0), subs w' 0, map_option fst (set_value 0 w' 0 9)))
     (run 0 (start (0::int)) [Call_create 4 None, Call_seal 0, Call_subscribe 0 (Listener 1)])
   = Some (sealed, [Listener 1], Some (Rejected SealedMutationError))"
  by (simp add: eval_defs)

text \<open>
  Claim C1, amended. Once \<^verbatim>\<open>seal()\<close> has been called on an existing cell \<open>c\<close>, then after any
  further events whatever (calls on this or other cells, microtasks, timers, time), with
  any depth allowed for nested calls: \<^verbatim>\<open>set\<close> fails with the sealed-mutation error (as
  the rejection of the promise the \<^verbatim>\<open>async\<close> method returns), \<^verbatim>\<open>mute\<close> and
  \<^verbatim>\<open>unmute\<close> throw it, each leaves the whole world as it was (so the value, the state and
  the subscriber list), the cell is still sealed, and \<^verbatim>\<open>get\<close> returns the value held
  before sealing. The subscriber list is empty when \<^verbatim>\<open>seal\<close> returns, and it is still empty
  after any script of calls a program can make (\<open>scoped\<close>) in which nothing subscribes to \<open>c\<close>,
  neither \<^verbatim>\<open>subscribe\<close> nor a \<^verbatim>\<open>bind\<close> with \<open>c\<close> among its sources; a later \<^verbatim>\<open>subscribe\<close> does
  add to it.
\<close>

theorem sealed_cell_rejects_mutation:
  assumes "c < next_cell w" and "run n (snd (seal w c)) es = Some w'"
  shows "set_value m w' c v = Some (Rejected SealedMutationError, w') \<and>
         mute w' c = (Threw SealedMutationError, w') \<and>
         unmute w' c = (Threw SealedMutationError, w') \<and>
         u_state (cells w' c) = sealed \<and>
         get w' c = get w c \<and>
         subs (snd (seal w c)) c = [] \<and>
         (allocated w \<and> scoped (next_cell w) es \<and> (\<forall>e\<in>set es. c \<notin> set (subscribes_to e)) \<longrightarrow>
            subs w' c = [])"
proof -
  let ?w0 = "snd (seal w c)"
  have s0: "u_state (cells ?w0 c) = sealed" "u_value (cells ?w0 c) = u_value (cells w c)"
    "next_cell ?w0 = next_cell w" "subs ?w0 c = []"
    by (simp_all add: seal_def Let_def subs_def)
  from assms(1) s0(3) have "c < next_cell ?w0" by simp
  from run_later[OF this assms(2)] s0
  have st: "u_state (cells w' c) = sealed" and val: "u_value (cells w' c) = u_value (cells w c)"
    by (simp_all add: later_def)
  from st have 1: "set_value m w' c v = Some (Rejected SealedMutationError, w')"
    by (simp add: set_value_def set_value_by_def)
  from st have 2: "mute w' c = (Threw SealedMutationError, w')"
    by (simp add: mute_def)
  from st have 3: "unmute w' c = (Threw SealedMutationError, w')"
    by (simp add: unmute_def)
  have 4: "subs w' c = []"
    if a: "allocated w \<and> scoped (next_cell w) es \<and> (\<forall>e\<in>set es. c \<notin> set (subscribes_to e))"
  proof -
    from a assms(1) have "emptied c ?w0" by (simp add: seal_emptied)
    moreover from a s0(3) have "scoped (next_cell ?w0) es" by simp
    ultimately have "emptied c w'" using a assms(2) by (blast intro: run_emptied)
    then show ?thesis by (simp add: emptied_def)
  qed
  from 1 2 3 4 st val s0(4) show ?thesis by (simp add: get_def)
qed

theorem sealed_cell_rejects_mutation_witness:
  "(0::nat) < next_cell (snd (create (4::int) None (start 0))) \<and>
   allocated (snd (create (4::int) None (start 0))) \<and>
   scoped (next_cell (snd (create (4::int) None (start 0)))) [Call_set 0 (7::int), Elapse 3] \<and>
   run 0 (snd (seal (snd (create (4::int) None (start 0))) 0)) [Call_set 0 7, Elapse 3]
     = Some (elapse 3 (snd (seal (snd (create (4::int) None (start 0))) 0))) \<and>
   set_value 0 (elapse 3 (snd (seal (snd (create (4::int) None (start 0))) 0))) 0 9
     = Some (Rejected SealedMutationError, elapse 3 (snd (seal (snd (create (4::int) None (start 0))) 0))) \<and>
   get (elapse 3 (snd (seal (snd (create (4::int) None (start 0))) 0))) 0 = 4 \<and>
   subs (elapse 3 (snd (seal (snd (create (4::int) None (start 0))) 0))) 0 = []"
proof -
  let ?w = "snd (create (4::int) None (start 0))"
  have h1: "(0::nat) < next_cell ?w" by (simp add: create_def)
  have h2: "run 0 (snd (seal ?w 0)) [Call_set 0 7, Elapse 3] = Some (elapse 3 (snd (seal ?w 0)))"
    by (simp add: set_value_def set_value_by_def seal_def Let_def)
  have h3: "allocated ?w" by (simp add: allocated_def create_def)
  have h4: "scoped (next_cell ?w) [Call_set 0 (7::int), Elapse 3]" by (simp add: create_def)
  have h5: "\<forall>e\<in>set [Call_set 0 (7::int), Elapse 3]. 0 \<notin> set (subscribes_to e)" by simp
  have v: "get ?w 0 = 4" by (simp add: get_def create_def)
  from sealed_cell_rejects_mutation[OF h1 h2, of 0 9] h1 h2 h3 h4 h5 v show ?thesis by simp
qed

text \<open>
  Claim C10. \<^verbatim>\<open>seal()\<close> has no failing path: on every cell, sealed or not, it returns
  normally and leaves the cell sealed with an empty subscriber list; on a sealed cell
  \<^verbatim>\<open>set\<close>, \<^verbatim>\<open>mute\<close> and \<^verbatim>\<open>unmute\<close> fail instead.
\<close>

theorem seal_never_throws:
  "fst (seal w c) = Ok \<and>
   u_state (cells (snd (seal w c)) c) = sealed \<and>
   subs (snd (seal w c)) c = [] \<and>
   (u_state (cells w c) = sealed \<longrightarrow>
      set_value n w c v = Some (Rejected SealedMutationError, w) \<and>
      mute w c = (Threw SealedMutationError, w) \<and>
      unmute w c = (Threw SealedMutationError, w))"
  by (simp add: seal_def Let_def subs_def set_value_def set_value_by_def mute_def unmute_def)

theorem seal_never_throws_witness:
  "u_state (cells (snd (seal (snd (create (4::int) None (start 0))) 0)) 0) = sealed \<and>
   fst (seal (snd (seal (snd (create (4::int) None (start 0))) 0)) 0) = Ok \<and>
   u_state (cells (snd (seal (snd (seal (snd (create (4::int) None (start 0))) 0)) 0)) 0) = sealed \<and>
   subs (snd (seal (snd (seal (snd (create (4::int) None (start 0))) 0)) 0)) 0 = [] \<and>
   fst (mute (snd (seal (snd (create (4::int) None (start 0))) 0)) 0) = Threw SealedMutationError"
proof -
  let ?w = "snd (seal (snd (create (4::int) None (start 0))) 0)"
  have h: "u_state (cells ?w 0) = sealed" by (simp add: seal_def Let_def)
  from seal_never_throws[of ?w 0 0 5] h show ?thesis by simp
qed

text \<open>
  Claim C4. On an unsealed, unmuted cell, \<^verbatim>\<open>set(v)\<close> with \<^verbatim>\<open>v === get()\<close> succeeds and
  returns the world it was given: no subscriber is called (the log of calls is the same),
  nothing is appended to the history, and no timer or microtask is left behind.
\<close>

theorem set_same_value_is_noop:
  assumes "u_state (cells w c) = unsealed" and "v = get w c"
  shows "set_value n w c v = Some (Ok, w)"
  using assms by (simp add: set_value_def set_value_by_def notify_by_def get_def upd_cell_same)

theorem set_same_value_is_noop_witness:
  "u_state (cells listeners_121 0) = unsealed \<and> (5::int) = get listeners_121 0 \<and>
   set_value 0 listeners_121 0 5 = Some (Ok, listeners_121)"
  using set_same_value_is_noop[of listeners_121 0 5 0]
  by (simp add: listeners_121_simps get_def)

text \<open>
  Claim C5. \<^verbatim>\<open>subscribe(fn)\<close>, for a function \<open>fn\<close> handed in by a caller, appends \<open>fn\<close>
  to the subscriber list and calls it exactly once before returning: one call is added to
  the log, with the current value and the second-to-last entry of the history
  (\<^verbatim>\<open>undefined\<close>, here \<open>None\<close>, when the history has fewer than two entries, as on the
  first subscription after construction); nothing else is scheduled. The closure returned
  has no failing path (it is a total function with no error result). Called on any world
  \<open>x\<close> it leaves the list without \<open>fn\<close>; called a second time it installs a fresh
  copy of the same list and changes nothing else: the content of the list, every other
  field of every cell, the log, the timers and the microtasks are as after the first call.
\<close>

theorem subscribe_calls_once:
  "(\<exists>w'. subscribe n w c (Listener l) = Some ((c, Listener l), w') \<and>
      subs w' c = subs w c @ [Listener l] \<and>
      calls w' = calls w @
        [\<lparr>callee = l, arg_newValue = get w c,
          arg_oldValue = (if 2 \<le> length (u_history (cells w c))
                          then Some (u_history (cells w c) ! (length (u_history (cells w c)) - 2))
                          else None)\<rparr>] \<and>
      cells w' = cells w \<and> microtasks w' = microtasks w \<and> timers w' = timers w) \<and>
   (\<exists>w'. subscribe n (snd (create v options w)) (fst (create v options w)) (Listener l)
            = Some ((fst (create v options w), Listener l), w') \<and>
      calls w' = calls w @ [\<lparr>callee = l, arg_newValue = v, arg_oldValue = None\<rparr>]) \<and>
   subs (unsubscribe (c, Listener l) x) c = filter (\<lambda>s. s \<noteq> Listener l) (subs x c) \<and>
   subs (unsubscribe (c, Listener l) (unsubscribe (c, Listener l) x)) c
     = subs (unsubscribe (c, Listener l) x) c \<and>
   cells (unsubscribe (c, Listener l) (unsubscribe (c, Listener l) x))
     = (cells (unsubscribe (c, Listener l) x))
         (c := (cells (unsubscribe (c, Listener l) x) c)
                 \<lparr>u_subscribers := next_array (unsubscribe (c, Listener l) x)\<rparr>) \<and>
   arrays (unsubscribe (c, Listener l) (unsubscribe (c, Listener l) x))
     = (arrays (unsubscribe (c, Listener l) x))
         (next_array (unsubscribe (c, Listener l) x) := subs (unsubscribe (c, Listener l) x) c) \<and>
   calls (unsubscribe (c, Listener l) (unsubscribe (c, Listener l) x))
     = calls (unsubscribe (c, Listener l) x) \<and>
   timers (unsubscribe (c, Listener l) (unsubscribe (c, Listener l) x))
     = timers (unsubscribe (c, Listener l) x) \<and>
   microtasks (unsubscribe (c, Listener l) (unsubscribe (c, Listener l) x))
     = microtasks (unsubscribe (c, Listener l) x)"
proof -
  have "\<exists>w'. subscribe n w c (Listener l) = Some ((c, Listener l), w') \<and>
      subs w' c = subs w c @ [Listener l] \<and>
      calls w' = calls w @
        [\<lparr>callee = l, arg_newValue = get w c,
          arg_oldValue = (if 2 \<le> length (u_history (cells w c))
                          then Some (u_history (cells w c) ! (length (u_history (cells w c)) - 2))
                          else None)\<rparr>] \<and>
      cells w' = cells w \<and> microtasks w' = microtasks w \<and> timers w' = timers w"
    by (simp add: subscribe_def Let_def subs_def get_def second_to_last_def)
  moreover have "\<exists>w'. subscribe n (snd (create v options w)) (fst (create v options w)) (Listener l)
            = Some ((fst (create v options w), Listener l), w') \<and>
      calls w' = calls w @ [\<lparr>callee = l, arg_newValue = v, arg_oldValue = None\<rparr>]"
    by (simp add: subscribe_def Let_def create_def second_to_last_def)
  moreover have "subs (unsubscribe (c, Listener l) x) c = filter (\<lambda>s. s \<noteq> Listener l) (subs x c)"
    by (rule subs_unsubscribe)
  ultimately show ?thesis
    by (simp add: unsubscribe_def Let_def subs_def)
qed

text \<open>
  Claim C9 as stated says that after the unsubscribe handle is called the function receives no
  further notification from any of its registrations. It does when a notification is in flight:
  the loop of \<^verbatim>\<open>_notify\<close> suspended at an \<^verbatim>\<open>await\<close> keeps iterating the array it started on
  (lines 68-70), while the handle assigns a new, filtered array (line 90). The listener 1 is
  registered twice on a cell holding 5, around the listener 2; \<^verbatim>\<open>set(9)\<close> calls the first
  subscriber and suspends; the handle is called, and the list is \<open>[Listener 2]\<close>; the microtasks
  run: the listener 2 is called, and then the listener 1 again, from its second registration.
\<close>

theorem unsubscribe_in_flight_counterexample:
  "map_option (\<lambda>w'. (subs w' 0, calls w'))
     (run 0 (start (0::int))
        [Call_create 5 None, Call_subscribe 0 (Listener 1), Call_subscribe 0 (Listener 2),
         Call_subscribe 0 (Listener 1),
         Call_set 0 9, Call_unsubscribe (0, Listener 1), Run_microtasks 3])
   = Some ([Listener 2],
       [\<lparr>callee = 1, arg_newValue = 5, arg_oldValue = None\<rparr>,
        \<lparr>callee = 2, arg_newValue = 5, arg_oldValue = None\<rparr>,
        \<lparr>callee = 1, arg_newValue = 5, arg_oldValue = None\<rparr>,
        \<lparr>callee = 1, arg_newValue = 9, arg_oldValue = Some 5\<rparr>,
        \<lparr>callee = 2, arg_newValue = 9, arg_oldValue = Some 5\<rparr>,
        \<lparr>callee = 1, arg_newValue = 9, arg_oldValue = Some 5\<rparr>])"
  by (simp add: eval_defs numeral_3_eq_3)

text \<open>
  Claim C9, amended. The closure returned by \<^verbatim>\<open>subscribe\<close> filters by identity, so it removes
  every occurrence of its function from the subscriber list, whichever registration it
  came from, and keeps the others in order. The next notification of the cell then
  reaches the remaining listeners only: on an unsealed cell without throttle or debounce,
  with no loop in flight, a \<^verbatim>\<open>set\<close> of a new value after the removal of the listener
  \<open>l\<close>, run to completion, logs one call for each remaining listener and none for \<open>l\<close>.
  And when no loop in flight at the time of the call iterates an array holding \<open>l\<close>, and \<open>l\<close>
  is registered on no other cell, \<open>l\<close> is never called again: after any script of calls a
  program can make (\<open>scoped\<close>) that does not subscribe \<open>l\<close> anew, with any options of the cells,
  timers and microtasks included, the calls \<open>l\<close> has received are those it had received before.
  (\<open>grounded\<close> holds in every world a program can reach: the closures and timers belong to cells
  that exist.)
\<close>

theorem unsubscribe_removes_every_occurrence:
  "subs (unsubscribe (c, fn) w) c = filter (\<lambda>s. s \<noteq> fn) (subs w c) \<and>
   fn \<notin> set (subs (unsubscribe (c, fn) w) c) \<and>
   (u_state (cells w c) = unsealed \<and>
    \<not> truthy (throttle (u_options (cells w c))) \<and>
    \<not> truthy (debounce (u_options (cells w c))) \<and>
    microtasks w = [] \<and> subs w c = map Listener ls \<and> v \<noteq> get w c \<longrightarrow>
    (\<exists>w1 w2. set_value n (unsubscribe (c, Listener l) w) c v = Some (Ok, w1) \<and>
        drain (length (filter (\<lambda>x. x \<noteq> l) ls)) n w1 = Some w2 \<and>
        microtasks w2 = [] \<and>
        calls w2 = calls w @ map (notification v (get w c)) (filter (\<lambda>x. x \<noteq> l) ls) \<and>
        l \<notin> callee ` set (map (notification v (get w c)) (filter (\<lambda>x. x \<noteq> l) ls)))) \<and>
   (grounded w \<and> c < next_cell w \<and>
    (\<forall>c'<next_cell w. c' \<noteq> c \<longrightarrow> Listener l \<notin> set (subs w c')) \<and>
    (\<forall>m\<in>set (microtasks w). Listener l \<notin> set (arrays w (loop_array m))) \<and>
    scoped (next_cell w) es \<and> (\<forall>e\<in>set es. Listener l \<notin> set (registers e)) \<and>
    run n (unsubscribe (c, Listener l) w) es = Some w' \<longrightarrow>
    calls_of l w' = calls_of l w)"
  (is "?removed \<and> ?gone \<and> ?next \<and> ?never")
proof -
  have 1: ?removed by (rule subs_unsubscribe)
  then have 2: ?gone by simp
  have 3: ?next
  proof
    assume a: "u_state (cells w c) = unsealed \<and>
      \<not> truthy (throttle (u_options (cells w c))) \<and>
      \<not> truthy (debounce (u_options (cells w c))) \<and>
      microtasks w = [] \<and> subs w c = map Listener ls \<and> v \<noteq> get w c"
    let ?u = "unsubscribe (c, Listener l) w"
    let ?keep = "filter (\<lambda>x. x \<noteq> l) ls"
    have same: "u_state (cells ?u c) = u_state (cells w c)" "u_options (cells ?u c) = u_options (cells w c)"
      "u_value (cells ?u c) = u_value (cells w c)" "microtasks ?u = microtasks w" "calls ?u = calls w"
      by (simp_all add: unsubscribe_def Let_def)
    from a have s: "subs ?u c = map Listener ?keep"
      by (simp add: subs_unsubscribe filter_map comp_def)
    from a same have "\<exists>w1. set_value n ?u c v = Some (Ok, w1) \<and>
             drain (length ?keep) n w1 =
               Some (upd_cell c (\<lambda>ob. ob\<lparr>u_value := v, u_history := u_history ob @ [v]\<rparr>)
                      (?u\<lparr>calls := calls ?u @ map (notification v (u_value (cells ?u c))) ?keep\<rparr>))"
      by (intro set_value_plain s) (simp_all add: get_def)
    then obtain w1 where 1: "set_value n ?u c v = Some (Ok, w1)"
      and 2: "drain (length ?keep) n w1 =
               Some (upd_cell c (\<lambda>ob. ob\<lparr>u_value := v, u_history := u_history ob @ [v]\<rparr>)
                      (?u\<lparr>calls := calls ?u @ map (notification v (u_value (cells ?u c))) ?keep\<rparr>))"
      by blast
    have 3: "l \<notin> callee ` set (map (notification v (get w c)) ?keep)"
      by (auto simp: notification_def)
    from 1 2 3 a same show "\<exists>w1 w2. set_value n ?u c v = Some (Ok, w1) \<and>
          drain (length ?keep) n w1 = Some w2 \<and>
          microtasks w2 = [] \<and>
          calls w2 = calls w @ map (notification v (get w c)) ?keep \<and>
          l \<notin> callee ` set (map (notification v (get w c)) ?keep)"
      by (simp add: get_def)
  qed
  have 4: ?never
  proof
    assume a: "grounded w \<and> c < next_cell w \<and>
      (\<forall>c'<next_cell w. c' \<noteq> c \<longrightarrow> Listener l \<notin> set (subs w c')) \<and>
      (\<forall>m\<in>set (microtasks w). Listener l \<notin> set (arrays w (loop_array m))) \<and>
      scoped (next_cell w) es \<and> (\<forall>e\<in>set es. Listener l \<notin> set (registers e)) \<and>
      run n (unsubscribe (c, Listener l) w) es = Some w'"
    let ?u = "unsubscribe (c, Listener l) w"
    from a have q: "quiet l ?u" by (intro unsubscribe_detaches) simp_all
    have nc: "next_cell ?u = next_cell w" "calls ?u = calls w" by (simp_all add: unsubscribe_def Let_def)
    from a nc have "scoped (next_cell ?u) es" by simp
    from run_quiet[OF q this] a have "calls_of l w' = calls_of l ?u" by blast
    with nc show "calls_of l w' = calls_of l w" by (simp add: calls_of_def)
  qed
  from 1 2 3 4 show ?thesis by (intro conjI)
qed

theorem unsubscribe_removes_every_occurrence_witness:
  "u_state (cells listeners_121 0) = unsealed \<and>
   \<not> truthy (throttle (u_options (cells listeners_121 0))) \<and>
   \<not> truthy (debounce (u_options (cells listeners_121 0))) \<and>
   microtasks listeners_121 = [] \<and> subs listeners_121 0 = map Listener [1, 2, 1] \<and>
   (7::int) \<noteq> get listeners_121 0 \<and>
   subs (unsubscribe (0, Listener 1) listeners_121) 0 = [Listener 2] \<and>
   (\<exists>w1 w2. set_value 0 (unsubscribe (0, Listener 1) listeners_121) 0 7 = Some (Ok, w1) \<and>
      drain (Suc 0) 0 w1 = Some w2 \<and>
      calls w2 = calls listeners_121 @ [\<lparr>callee = 2, arg_newValue = 7, arg_oldValue = Some 5\<rparr>]) \<and>
   grounded listeners_121 \<and> 0 < next_cell listeners_121 \<and>
   scoped (next_cell listeners_121)
     [Call_set 0 (7::int), Run_microtasks (Suc 0), Call_subscribe 0 (Listener 3), Call_set 0 8,
      Run_microtasks (Suc (Suc 0))] \<and>
   (\<exists>w'. run 0 (unsubscribe (0, Listener 1) listeners_121)
            [Call_set 0 7, Run_microtasks (Suc 0), Call_subscribe 0 (Listener 3), Call_set 0 8,
             Run_microtasks (Suc (Suc 0))] = Some w' \<and>
          calls_of 1 w' = [\<lparr>callee = 1, arg_newValue = 5, arg_oldValue = None\<rparr>,
                           \<lparr>callee = 1, arg_newValue = 5, arg_oldValue = None\<rparr>])"
proof -
  let ?es = "[Call_set 0 (7::int), Run_microtasks (Suc 0), Call_subscribe 0 (Listener 3), Call_set 0 8,
      Run_microtasks (Suc (Suc 0))]"
  note T = unsubscribe_removes_every_occurrence[of 0 "Listener 1" listeners_121 "[1, 2, 1]" 7 0 1 ?es]
  from listeners_121_scope(3) obtain w' where
    r: "run 0 (unsubscribe (0, Listener 1) listeners_121) ?es = Some w'" ..
  have h: "grounded listeners_121 \<and> 0 < next_cell listeners_121 \<and>
    (\<forall>c'<next_cell listeners_121. c' \<noteq> 0 \<longrightarrow> Listener 1 \<notin> set (subs listeners_121 c')) \<and>
    (\<forall>m\<in>set (microtasks listeners_121). Listener 1 \<notin> set (arrays listeners_121 (loop_array m))) \<and>
    scoped (next_cell listeners_121) ?es \<and> (\<forall>e\<in>set ?es. Listener 1 \<notin> set (registers e)) \<and>
    run 0 (unsubscribe (0, Listener 1) listeners_121) ?es = Some w'"
    using r by (simp add: listeners_121_scope listeners_121_simps)
  from T[of w', THEN conjunct2, THEN conjunct2, THEN conjunct2, THEN mp, OF h]
  have "calls_of 1 w' = [\<lparr>callee = 1, arg_newValue = 5, arg_oldValue = None\<rparr>,
                           \<lparr>callee = 1, arg_newValue = 5, arg_oldValue = None\<rparr>]"
    by (simp add: calls_of_def listeners_121_simps)
  with r have 4: "\<exists>w'. run 0 (unsubscribe (0, Listener 1) listeners_121) ?es = Some w' \<and>
          calls_of 1 w' = [\<lparr>callee = 1, arg_newValue = 5, arg_oldValue = None\<rparr>,
                           \<lparr>callee = 1, arg_newValue = 5, arg_oldValue = None\<rparr>]"
    by blast
  have 3: "\<exists>w1 w2. set_value 0 (unsubscribe (0, Listener 1) listeners_121) 0 7 = Some (Ok, w1) \<and>
      drain (Suc 0) 0 w1 = Some w2 \<and>
      calls w2 = calls listeners_121 @ [\<lparr>callee = 2, arg_newValue = 7, arg_oldValue = Some 5\<rparr>]"
    using T[of w', THEN conjunct2, THEN conjunct2, THEN conjunct1]
    by (auto simp add: listeners_121_simps get_def truthy_def notification_def simp del: drain.simps One_nat_def)
  have 1: "subs (unsubscribe (0, Listener 1) listeners_121) 0 = [Listener 2]"
    using T[of w', THEN conjunct1] by (simp add: listeners_121_simps)
  from 1 3 4 show ?thesis
    by (simp add: listeners_121_simps listeners_121_scope get_def truthy_def del: drain.simps run.simps)
qed

text \<open>
  Claim C2, as stated, fails: the one notification delivered after a burst of calls
  carries as its old value the value held before the last call of the burst, not the one
  held before the first. Here a cell holding 0 with a debounce of 10 ms is set to 1 and,
  5 ms later, to 2; the listener (called once with 0 on subscribing) is then called once
  more, with 2 and 1, not with 2 and 0.
\<close>

theorem debounce_old_value_counterexample:
  "map_option calls
     (run 0 (start (0::int))
        [Call_create 0 (Some \<lparr>debounce = Some 10, throttle = None\<rparr>), Call_subscribe 0 (Listener 1),
         Call_set 0 1, Elapse 5, Call_set 0 2, Elapse 10, Fire_timer 2, Run_microtasks 1])
   = Some [\<lparr>callee = 1, arg_newValue = 0, arg_oldValue = None\<rparr>,
           \<lparr>callee = 1, arg_newValue = 2, arg_oldValue = Some 1\<rparr>]"
  by (simp add: eval_defs)

text \<open>
  Claim C2, amended. On an unsealed, unmuted cell with debounce \<open>D\<close> and no throttle, a
  burst of one or more \<^verbatim>\<open>set\<close> calls, each with a value different from the one before
  it, run without any timer of the cell firing in between (the only course of events when
  each call comes less than \<open>D\<close> ms after the previous one: \<open>fire_timer\<close> is \<open>None\<close>
  until \<open>D\<close> ms have passed since the last call), calls no subscriber and leaves exactly
  one timer of its own pending. When that timer fires, \<open>D\<close> ms or more after the last
  call, and the microtasks have run, every listener has received exactly one call: the
  last value set, and the value held just before the last call of the burst. The history
  has grown by the last value only, and nothing of the burst is left pending.
\<close>

theorem debounce_delivers_last_value_once:
  assumes "u_state (cells w c) = unsealed"
    and "\<not> truthy (throttle (u_options (cells w c)))"
    and "debounce (u_options (cells w c)) = Some D" and "0 < D"
    and "distinct_adj (get w c # v # map snd rest)"
    and "\<forall>t\<in>set (timers w). handle t < next_handle w"
    and "microtasks w = []" and "subs w c = map Listener ls"
    and "D \<le> wait"
  shows "\<exists>w1 w2.
      run n w (Call_set c v # burst c rest) = Some w1 \<and>
      calls w1 = calls w \<and> microtasks w1 = [] \<and>
      u_history (cells w1 c) = u_history (cells w c) \<and>
      get w1 c = last (v # map snd rest) \<and>
      timers w1 = filter (\<lambda>t. Some (handle t) \<noteq> u_debounceTimeout (cells w c)) (timers w)
                  @ [\<lparr>handle = next_handle w + length rest, due = now w1 + D,
                      callback = DebounceExpired c (last (v # map snd rest))
                                   (last (butlast (get w c # v # map snd rest)))\<rparr>] \<and>
      (\<forall>early<D. fire_timer n (elapse early w1) (next_handle w + length rest) = None) \<and>
      run n w1 [Elapse wait, Fire_timer (next_handle w + length rest), Run_microtasks (length ls)] = Some w2 \<and>
      calls w2 = calls w @ map (notification (last (v # map snd rest))
                                  (last (butlast (get w c # v # map snd rest)))) ls \<and>
      u_history (cells w2 c) = u_history (cells w c) @ [last (v # map snd rest)] \<and>
      get w2 c = last (v # map snd rest) \<and>
      timers w2 = filter (\<lambda>t. Some (handle t) \<noteq> u_debounceTimeout (cells w c)) (timers w) \<and>
      microtasks w2 = []"
  using assms by (rule debounce_burst_delivers)

theorem debounce_delivers_last_value_once_witness:
  "u_state (cells debounced_cell 0) = unsealed \<and>
   \<not> truthy (throttle (u_options (cells debounced_cell 0))) \<and>
   debounce (u_options (cells debounced_cell 0)) = Some 10 \<and> (0::nat) < 10 \<and>
   distinct_adj (get debounced_cell 0 # 1 # map snd [(5, 2), (3, 7)]) \<and>
   timers debounced_cell = [] \<and>
   microtasks debounced_cell = [] \<and> subs debounced_cell 0 = map Listener [1] \<and> (10::nat) \<le> 10 \<and>
   (\<exists>w1 w2. run 0 debounced_cell (Call_set 0 1 # burst 0 [(5, 2), (3, 7)]) = Some w1 \<and>
      calls w1 = calls debounced_cell \<and>
      run 0 w1 [Elapse 10, Fire_timer 3, Run_microtasks 1] = Some w2 \<and>
      calls w2 = calls debounced_cell @ [\<lparr>callee = 1, arg_newValue = 7, arg_oldValue = Some 2\<rparr>] \<and>
      u_history (cells w2 0) = [0, 7])"
proof -
  have h: "u_state (cells debounced_cell 0) = unsealed"
    "\<not> truthy (throttle (u_options (cells debounced_cell 0)))"
    "debounce (u_options (cells debounced_cell 0)) = Some 10" "(0::nat) < 10"
    "distinct_adj (get debounced_cell 0 # 1 # map snd [(5, 2), (3, 7)])"
    "\<forall>t\<in>set (timers debounced_cell). handle t < next_handle debounced_cell"
    "microtasks debounced_cell = []" "subs debounced_cell 0 = map Listener [1]" "(10::nat) \<le> 10"
    by (simp_all add: debounced_cell_simps truthy_def get_def)
  from debounce_delivers_last_value_once[OF h, of 0]
  obtain w1 w2 where "run 0 debounced_cell (Call_set 0 1 # burst 0 [(5, 2), (3, 7)]) = Some w1"
    "calls w1 = calls debounced_cell"
    "run 0 w1 [Elapse 10, Fire_timer (next_handle debounced_cell + length [(5::nat, 2::int), (3, 7)]),
               Run_microtasks (length [1::nat])] = Some w2"
    "calls w2 = calls debounced_cell @ map (notification (last (1 # map snd [(5::nat, 2::int), (3, 7)]))
        (last (butlast (get debounced_cell 0 # 1 # map snd [(5::nat, 2::int), (3, 7)])))) [1]"
    "u_history (cells w2 0) = u_history (cells debounced_cell 0) @ [last (1 # map snd [(5::nat, 2::int), (3, 7)])]"
    by blast
  then have "run 0 debounced_cell (Call_set 0 1 # burst 0 [(5, 2), (3, 7)]) = Some w1 \<and>
      calls w1 = calls debounced_cell \<and>
      run 0 w1 [Elapse 10, Fire_timer 3, Run_microtasks 1] = Some w2 \<and>
      calls w2 = calls debounced_cell @ [\<lparr>callee = 1, arg_newValue = 7, arg_oldValue = Some 2\<rparr>] \<and>
      u_history (cells w2 0) = [0, 7]"
    by (simp add: debounced_cell_simps notification_def get_def numeral_3_eq_3 del: run.simps burst.simps)
  then show ?thesis using h by (auto simp: debounced_cell_simps throttled_cell_simps simp del: run.simps burst.simps)
qed

text \<open>
  Claim C6. On a cell with throttle \<open>T\<close> and no debounce, a \<^verbatim>\<open>set\<close> that arrives while
  the throttle timer is active only assigns the value: no subscriber is called and no
  timer, microtask or history entry is left for it, so nothing can deliver it later. Of
  two calls with different values less than \<open>T\<close> ms apart only the first reaches the
  listeners (the timer cannot fire before the second); after \<open>T\<close> ms the timer fires and
  a third call reaches them again, with the dropped value as its old value.
\<close>

theorem throttle_drops_notification:
  assumes "u_state (cells w c) = unsealed"
    and "throttle (u_options (cells w c)) = Some T" and "0 < T"
    and "\<not> truthy (debounce (u_options (cells w c)))"
    and "u_throttleTimeout (cells w c) = None"
    and "\<forall>t\<in>set (timers w). handle t < next_handle w"
    and "microtasks w = []" and "subs w c = map Listener ls"
    and "v1 \<noteq> get w c" and "v2 \<noteq> v1" and "v3 \<noteq> v2"
    and "gap < T" and "T \<le> gap + wait"
  shows "(u_state (cells x c) \<noteq> sealed \<and> truthy (throttle (u_options (cells x c))) \<and>
            u_throttleTimeout (cells x c) \<noteq> None \<longrightarrow>
            set_value n x c v = Some (Ok, upd_cell c (\<lambda>ob. ob\<lparr>u_value := v\<rparr>) x)) \<and>
     (\<exists>w1 w2 w3.
        run n w [Call_set c v1, Run_microtasks (length ls)] = Some w1 \<and>
        calls w1 = calls w @ map (notification v1 (get w c)) ls \<and>
        microtasks w1 = [] \<and>
        fire_timer n (elapse gap w1) (next_handle w) = None \<and>
        run n w1 [Elapse gap, Call_set c v2] = Some w2 \<and>
        w2 = upd_cell c (\<lambda>ob. ob\<lparr>u_value := v2\<rparr>) (elapse gap w1) \<and>
        calls w2 = calls w1 \<and> microtasks w2 = [] \<and> timers w2 = timers w1 \<and>
        u_history (cells w2 c) = u_history (cells w1 c) \<and> get w2 c = v2 \<and>
        run n w2 [Elapse wait, Fire_timer (next_handle w), Call_set c v3, Run_microtasks (length ls)]
          = Some w3 \<and>
        calls w3 = calls w @ map (notification v1 (get w c)) ls @ map (notification v3 v2) ls \<and>
        u_history (cells w3 c) = u_history (cells w c) @ [v1, v3])"
proof (intro conjI impI)
  assume "u_state (cells x c) \<noteq> sealed \<and> truthy (throttle (u_options (cells x c))) \<and>
            u_throttleTimeout (cells x c) \<noteq> None"
  then show "set_value n x c v = Some (Ok, upd_cell c (\<lambda>ob. ob\<lparr>u_value := v\<rparr>) x)"
    by (intro set_value_throttled) simp_all
next
  let ?H = "next_handle w"
  let ?t = "\<lparr>handle = ?H, due = now w + T, callback = ThrottleExpired c\<rparr>"
  define W1 where "W1 = upd_cell c (\<lambda>ob. ob\<lparr>u_value := v1, u_throttleTimeout := Some ?H,
                                       u_history := u_history ob @ [v1]\<rparr>)
                    (w\<lparr>timers := timers w @ [?t], next_handle := Suc ?H,
                       calls := calls w @ map (notification v1 (u_value (cells w c))) ls\<rparr>)"
  from assms(3) have T: "T \<noteq> 0" by simp
  from assms(9) have ne1: "v1 \<noteq> u_value (cells w c)" by (simp add: get_def)
  from set_value_throttle_open[OF assms(1,2) T assms(4,5,7,8) ne1, of n]
  obtain wa where s1: "set_value n w c v1 = Some (Ok, wa)" and d1: "drain (length ls) n wa = Some W1"
    unfolding W1_def by blast
  then have r1: "run n w [Call_set c v1, Run_microtasks (length ls)] = Some W1" by simp
  have p1: "calls W1 = calls w @ map (notification v1 (get w c)) ls" "microtasks W1 = []"
    "timers W1 = timers w @ [?t]" "u_state (cells W1 c) = unsealed"
    "u_options (cells W1 c) = u_options (cells w c)" "u_throttleTimeout (cells W1 c) = Some ?H"
    "subs W1 c = map Listener ls" "u_value (cells W1 c) = v1" "now W1 = now w"
    "u_history (cells W1 c) = u_history (cells w c) @ [v1]" "next_handle W1 = Suc ?H"
    using assms(1,7,8) by (simp_all add: W1_def get_def subs_def)
  have fresh: "\<forall>t\<in>set (timers w). handle t \<noteq> handle ?t" using assms(6) by auto
  have fnd: "\<And>ms x. timers x = timers W1 \<Longrightarrow> find (\<lambda>t. handle t = ?H) (timers x) = Some ?t"
    using find_last_timer[OF fresh] by (simp add: p1)
  have f1: "find (\<lambda>t. handle t = ?H) (timers (elapse gap W1)) = Some ?t"
    by (rule fnd) (simp add: elapse_def)
  have lt: "now (elapse gap W1) < due ?t" using assms(12) by (simp add: elapse_def p1)
  have early: "fire_timer n (elapse gap W1) ?H = None"
    by (rule fire_timer_early[OF f1 lt])
  define W2 where "W2 = upd_cell c (\<lambda>ob. ob\<lparr>u_value := v2\<rparr>) (elapse gap W1)"
  have "set_value n (elapse gap W1) c v2 = Some (Ok, W2)"
    unfolding W2_def using assms(2) T
    by (intro set_value_throttled) (simp_all add: elapse_def p1 truthy_def)
  then have r2: "run n W1 [Elapse gap, Call_set c v2] = Some W2" by simp
  have p2: "calls W2 = calls W1" "microtasks W2 = []" "timers W2 = timers W1"
    "u_history (cells W2 c) = u_history (cells W1 c)" "get W2 c = v2"
    "u_state (cells W2 c) = unsealed" "u_options (cells W2 c) = u_options (cells w c)"
    "u_throttleTimeout (cells W2 c) = Some ?H" "subs W2 c = map Listener ls"
    "now W2 = now w + gap"
    using p1 by (simp_all add: W2_def elapse_def get_def subs_def)
  define W2a where "W2a = elapse wait W2"
  define W2b where "W2b = upd_cell c (\<lambda>ob. ob\<lparr>u_throttleTimeout := None\<rparr>)
                            (W2a\<lparr>timers := filter (\<lambda>t. handle t \<noteq> ?H) (timers W2a)\<rparr>)"
  have f0: "find (\<lambda>t. handle t = ?H) (timers W2a) = Some ?t"
    by (rule fnd) (simp add: W2a_def elapse_def p2)
  have "fire_timer n W2a ?H = Some W2b"
    unfolding W2b_def using assms(13)
    by (intro fire_throttle_timer[OF f0]) (simp_all add: W2a_def elapse_def p2)
  then have r3a: "run n W2 [Elapse wait, Fire_timer ?H] = Some W2b" by (simp add: W2a_def)
  have p2b: "u_state (cells W2b c) = unsealed" "throttle (u_options (cells W2b c)) = Some T"
    "\<not> truthy (debounce (u_options (cells W2b c)))" "u_throttleTimeout (cells W2b c) = None"
    "microtasks W2b = []" "subs W2b c = map Listener ls" "v3 \<noteq> u_value (cells W2b c)"
    "calls W2b = calls W1" "u_history (cells W2b c) = u_history (cells W1 c)"
    using p2 assms(2,4,11) by (simp_all add: W2b_def W2a_def elapse_def subs_def get_def)
  from set_value_throttle_open[OF p2b(1,2) T p2b(3-7), of n]
  obtain wc W3 where s3: "set_value n W2b c v3 = Some (Ok, wc)" and d3: "drain (length ls) n wc = Some W3"
    and W3: "W3 = upd_cell c (\<lambda>ob. ob\<lparr>u_value := v3, u_throttleTimeout := Some (next_handle W2b),
                                       u_history := u_history ob @ [v3]\<rparr>)
                    (W2b\<lparr>timers := timers W2b @ [\<lparr>handle = next_handle W2b, due = now W2b + T,
                                               callback = ThrottleExpired c\<rparr>],
                       next_handle := Suc (next_handle W2b),
                       calls := calls W2b @ map (notification v3 (u_value (cells W2b c))) ls\<rparr>)"
    by blast
  have v2b: "u_value (cells W2b c) = v2" using p2(5) by (simp add: W2b_def W2a_def elapse_def get_def)
  have r3: "run n W2 [Elapse wait, Fire_timer ?H, Call_set c v3, Run_microtasks (length ls)] = Some W3"
  proof -
    have "run n W2b [Call_set c v3, Run_microtasks (length ls)] = Some W3"
      using s3 d3 by simp
    with r3a run_append[of n W2 "[Elapse wait, Fire_timer ?H]" "[Call_set c v3, Run_microtasks (length ls)]"]
    show ?thesis by simp
  qed
  have p3: "calls W3 = calls w @ map (notification v1 (get w c)) ls @ map (notification v3 v2) ls"
    "u_history (cells W3 c) = u_history (cells w c) @ [v1, v3]"
    using p2b(8,9) p1(1,10) v2b by (simp_all add: W3)
  show "\<exists>w1 w2 w3.
        run n w [Call_set c v1, Run_microtasks (length ls)] = Some w1 \<and>
        calls w1 = calls w @ map (notification v1 (get w c)) ls \<and>
        microtasks w1 = [] \<and>
        fire_timer n (elapse gap w1) (next_handle w) = None \<and>
        run n w1 [Elapse gap, Call_set c v2] = Some w2 \<and>
        w2 = upd_cell c (\<lambda>ob. ob\<lparr>u_value := v2\<rparr>) (elapse gap w1) \<and>
        calls w2 = calls w1 \<and> microtasks w2 = [] \<and> timers w2 = timers w1 \<and>
        u_history (cells w2 c) = u_history (cells w1 c) \<and> get w2 c = v2 \<and>
        run n w2 [Elapse wait, Fire_timer (next_handle w), Call_set c v3, Run_microtasks (length ls)]
          = Some w3 \<and>
        calls w3 = calls w @ map (notification v1 (get w c)) ls @ map (notification v3 v2) ls \<and>
        u_history (cells w3 c) = u_history (cells w c) @ [v1, v3]"
    using r1 p1(1,2) early r2 p2(1-5) r3 p3
    by (intro exI[of _ W1] exI[of _ W2] exI[of _ W3]) (simp add: W2_def)
qed

theorem throttle_drops_notification_witness:
  "u_state (cells throttled_cell 0) = unsealed \<and>
   throttle (u_options (cells throttled_cell 0)) = Some 10 \<and> (0::nat) < 10 \<and>
   \<not> truthy (debounce (u_options (cells throttled_cell 0))) \<and>
   u_throttleTimeout (cells throttled_cell 0) = None \<and>
   timers throttled_cell = [] \<and>
   microtasks throttled_cell = [] \<and> subs throttled_cell 0 = map Listener [1] \<and>
   (1::int) \<noteq> get throttled_cell 0 \<and> (2::int) \<noteq> 1 \<and> (3::int) \<noteq> 2 \<and> (4::nat) < 10 \<and> (10::nat) \<le> 4 + 6 \<and>
   (\<exists>w1 w2 w3. run 0 throttled_cell [Call_set 0 1, Run_microtasks 1] = Some w1 \<and>
      run 0 w1 [Elapse 4, Call_set 0 2] = Some w2 \<and> calls w2 = calls w1 \<and> get w2 0 = 2 \<and>
      run 0 w2 [Elapse 6, Fire_timer 1, Call_set 0 3, Run_microtasks 1] = Some w3 \<and>
      calls w3 = calls throttled_cell @ [\<lparr>callee = 1, arg_newValue = 1, arg_oldValue = Some 0\<rparr>,
                                          \<lparr>callee = 1, arg_newValue = 3, arg_oldValue = Some 2\<rparr>])"
proof -
  have h: "u_state (cells throttled_cell 0) = unsealed"
    "throttle (u_options (cells throttled_cell 0)) = Some 10" "(0::nat) < 10"
    "\<not> truthy (debounce (u_options (cells throttled_cell 0)))"
    "u_throttleTimeout (cells throttled_cell 0) = None"
    "\<forall>t\<in>set (timers throttled_cell). handle t < next_handle throttled_cell"
    "microtasks throttled_cell = []" "subs throttled_cell 0 = map Listener [1]"
    "(1::int) \<noteq> get throttled_cell 0" "(2::int) \<noteq> 1" "(3::int) \<noteq> 2" "(4::nat) < 10" "(10::nat) \<le> 4 + 6"
    by (simp_all add: throttled_cell_simps truthy_def get_def)
  from throttle_drops_notification[OF h, of throttled_cell 0 0, THEN conjunct2]
  obtain w1 w2 w3 where "run 0 throttled_cell [Call_set 0 1, Run_microtasks (length [1::nat])] = Some w1"
    "run 0 w1 [Elapse 4, Call_set 0 2] = Some w2" "calls w2 = calls w1" "get w2 0 = 2"
    "run 0 w2 [Elapse 6, Fire_timer (next_handle throttled_cell), Call_set 0 3, Run_microtasks (length [1::nat])] = Some w3"
    "calls w3 = calls throttled_cell @ map (notification 1 (get throttled_cell 0)) [1] @ map (notification 3 2) [1]"
    by blast
  then have "run 0 throttled_cell [Call_set 0 1, Run_microtasks 1] = Some w1 \<and>
      run 0 w1 [Elapse 4, Call_set 0 2] = Some w2 \<and> calls w2 = calls w1 \<and> get w2 0 = 2 \<and>
      run 0 w2 [Elapse 6, Fire_timer 1, Call_set 0 3, Run_microtasks 1] = Some w3 \<and>
      calls w3 = calls throttled_cell @ [\<lparr>callee = 1, arg_newValue = 1, arg_oldValue = Some 0\<rparr>,
                                          \<lparr>callee = 1, arg_newValue = 3, arg_oldValue = Some 2\<rparr>]"
    by (simp add: throttled_cell_simps notification_def get_def del: run.simps)
  then show ?thesis using h by (auto simp: debounced_cell_simps throttled_cell_simps simp del: run.simps burst.simps)
qed

text \<open>
  Claim C8, as stated, fails: \<^verbatim>\<open>seal()\<close> clears no timer. A cell with a debounce of
  10 ms is set to 1 and sealed; the debounce timer is still pending after the seal, it
  fires 10 ms later, and the history of the sealed cell grows from 0 to 0, 1.
\<close>

theorem seal_keeps_timer_counterexample:
  "map_option timers
     (run 0 (start (0::int))
        [Call_create 0 (Some \<lparr>debounce = Some 10, throttle = None\<rparr>), Call_set 0 1, Call_seal 0])
     = Some [\<lparr>handle = 1, due = 10, callback = DebounceExpired 0 1 0\<rparr>] \<and>
   map_option (\<lambda>w. (u_state (cells w 0), u_history (cells w 0)))
     (run 0 (start (0::int))
        [Call_create 0 (Some \<lparr>debounce = Some 10, throttle = None\<rparr>), Call_set 0 1, Call_seal 0])
     = Some (sealed, [0]) \<and>
   map_option (\<lambda>w. (u_state (cells w 0), u_history (cells w 0)))
     (run 0 (start (0::int))
        [Call_create 0 (Some \<lparr>debounce = Some 10, throttle = None\<rparr>), Call_set 0 1, Call_seal 0,
         Elapse 10, Fire_timer 1])
     = Some (sealed, [0, 1])"
  by (simp add: eval_defs)

text \<open>
  Claim C8, amended. \<^verbatim>\<open>seal()\<close> leaves every pending timer pending. A debounce timer of
  the cell outstanding at the seal fires afterwards: it calls no subscriber (it reads the
  subscriber list when it fires, and the seal has emptied it) and appends its value to
  the history of the sealed cell. A throttle timer outstanding at the seal fires too and
  only resets the throttle handle.
\<close>

theorem seal_leaves_timers_pending:
  "timers (snd (seal w c)) = timers w \<and>
   (find (\<lambda>t. handle t = h) (timers w) = Some t \<and> due t \<le> now w + ms \<and> microtasks w = [] \<and>
    callback t = DebounceExpired c new old \<longrightarrow>
      (\<exists>w'. fire_timer n (elapse ms (snd (seal w c))) h = Some w' \<and>
         u_state (cells w' c) = sealed \<and>
         u_history (cells w' c) = u_history (cells w c) @ [new] \<and>
         calls w' = calls w \<and> microtasks w' = [])) \<and>
   (find (\<lambda>t. handle t = h) (timers w) = Some t \<and> due t \<le> now w + ms \<and> microtasks w = [] \<and>
    callback t = ThrottleExpired c \<longrightarrow>
      (\<exists>w'. fire_timer n (elapse ms (snd (seal w c))) h = Some w' \<and>
         u_state (cells w' c) = sealed \<and>
         u_throttleTimeout (cells w' c) = None \<and>
         u_history (cells w' c) = u_history (cells w c) \<and>
         calls w' = calls w \<and> microtasks w' = []))"
proof (intro conjI impI)
  show "timers (snd (seal w c)) = timers w" by (simp add: seal_def Let_def)
next
  let ?w1 = "elapse ms (snd (seal w c))"
  assume a: "find (\<lambda>t. handle t = h) (timers w) = Some t \<and> due t \<le> now w + ms \<and> microtasks w = [] \<and>
    callback t = DebounceExpired c new old"
  then have f: "find (\<lambda>t. handle t = h) (timers ?w1) = Some t" and d: "due t \<le> now ?w1"
    and m: "microtasks ?w1 = []" and cb: "callback t = DebounceExpired c new old"
    by (simp_all add: elapse_def seal_def Let_def)
  have s: "subs ?w1 c = map Listener []" by (simp add: elapse_def seal_def Let_def subs_def)
  from fire_debounce_timer[OF f cb d m s, of n]
  show "\<exists>w'. fire_timer n ?w1 h = Some w' \<and>
         u_state (cells w' c) = sealed \<and>
         u_history (cells w' c) = u_history (cells w c) @ [new] \<and>
         calls w' = calls w \<and> microtasks w' = []"
    using a by (auto simp: elapse_def seal_def Let_def split: if_splits)
next
  let ?w1 = "elapse ms (snd (seal w c))"
  assume a: "find (\<lambda>t. handle t = h) (timers w) = Some t \<and> due t \<le> now w + ms \<and> microtasks w = [] \<and>
    callback t = ThrottleExpired c"
  then show "\<exists>w'. fire_timer n ?w1 h = Some w' \<and>
         u_state (cells w' c) = sealed \<and>
         u_throttleTimeout (cells w' c) = None \<and>
         u_history (cells w' c) = u_history (cells w c) \<and>
         calls w' = calls w \<and> microtasks w' = []"
    by (simp add: fire_timer_def elapse_def seal_def Let_def split: option.splits)
qed

theorem seal_leaves_timers_pending_witness:
  "find (\<lambda>t. handle t = 1) (timers debounce_pending)
     = Some \<lparr>handle = 1, due = 10, callback = DebounceExpired 0 1 0\<rparr> \<and>
   due \<lparr>handle = 1, due = 10, callback = DebounceExpired 0 (1::int) 0\<rparr> \<le> now debounce_pending + 10 \<and>
   microtasks debounce_pending = [] \<and>
   timers (snd (seal debounce_pending 0)) = timers debounce_pending \<and>
   (\<exists>w'. fire_timer 0 (elapse 10 (snd (seal debounce_pending 0))) 1 = Some w' \<and>
      u_state (cells w' 0) = sealed \<and> u_history (cells w' 0) = [0, 1] \<and>
      calls w' = calls debounce_pending)"
proof -
  have h: "find (\<lambda>t. handle t = 1) (timers debounce_pending)
             = Some \<lparr>handle = 1, due = 10, callback = DebounceExpired 0 1 0\<rparr>"
    "due \<lparr>handle = 1, due = 10, callback = DebounceExpired 0 (1::int) 0\<rparr> \<le> now debounce_pending + 10"
    "microtasks debounce_pending = []"
    by (simp_all add: debounce_pending_simps)
  from seal_leaves_timers_pending[of debounce_pending 0 1
      "\<lparr>handle = 1, due = 10, callback = DebounceExpired 0 1 0\<rparr>" 10 1 0 0] h
  show ?thesis by (auto simp: debounce_pending_simps)
qed







end
